theory Spec2Isabelle
  imports Complex_Main
begin

section \<open>Data model (models.py)\<close>

text \<open>
  Python values are modelled as follows.
  \<^item> a \<open>float\<close> field of a model class (a price, a threshold) is a real number: the
    engine only compares these. The floats of the cache's age test, where a parsed
    document can hold NaN or an infinity, are the \<open>pyfloat\<close> of the cache section.
  \<^item> \<open>datetime\<close> is an integer count of microseconds since the epoch (the resolution
    of Python's \<open>datetime\<close>); \<open>(now - t).total_seconds() >= n\<close> for an integer
    \<open>n\<close> is then \<open>now - t \<ge> n * 1000000\<close> (\<open>total_seconds\<close> is exact to the
    microsecond for differences of up to about 270 years).
  \<^item> \<open>str\<close> is a \<open>string\<close>; \<open>str.upper\<close> is modelled on ASCII strings.
  \<^item> a \<open>dict\<close> is an association list in insertion order with distinct keys.
  Record fields carry a prefix per class (\<open>sp_\<close>, \<open>ar_\<close>, \<open>ae_\<close>), since the classes
  share field names.
\<close>

type_synonym datetime = int

record StockPrice =
  sp_symbol :: string
  sp_price :: real
  sp_change :: real
  sp_percentChange :: real
  sp_ts :: datetime

record AlertRule =
  ar_id :: int
  ar_symbol :: string
  ar_operator :: string
  ar_threshold :: real
  ar_description :: string
  ar_enabled :: bool
  ar_cooldown_seconds :: int
  ar_last_triggered :: "datetime option"

text \<open>
  The message of an event is the f-string
  \<^verbatim>\<open>Alert {rule.id}: {rule.symbol} {rule.operator} {rule.threshold} (current: {current_price:.2f})\<close>.
  Its text depends on the decimal rendering of floats, so the model keeps the five
  values the template is filled with instead of the rendered characters.
\<close>

datatype alert_message = AlertMessage int string string real real

record AlertEvent =
  ae_rule_id :: int
  ae_symbol :: string
  ae_price :: real
  ae_triggered_at :: datetime
  ae_message :: alert_message

section \<open>Python built-ins used by the services\<close>

text \<open>
  \<open>str.upper\<close>. On a string of ASCII characters every lowercase letter becomes its
  capital and every other character stays. On a string with a character outside ASCII
  the result is left unspecified: Python's Unicode case mapping, which can also change
  the length of the string, is not modelled, and nothing is proved about it.
\<close>

definition upper_char :: "char \<Rightarrow> char" where
  "upper_char c =
     (case map_of (zip ''abcdefghijklmnopqrstuvwxyz'' ''ABCDEFGHIJKLMNOPQRSTUVWXYZ'') c of
        None \<Rightarrow> c
      | Some u \<Rightarrow> u)"

definition upper :: "string \<Rightarrow> string" where
  "upper s =
     (if list_all (\<lambda>c. (of_char c :: nat) < 128) s then map upper_char s
      else (undefined :: string \<Rightarrow> string) s)"

text \<open>The exceptions the services can meet.\<close>

datatype py_error =
    JSONDecodeError | AttributeError | TypeError | ValueError | OverflowError
  | ValidationError

text \<open>\<open>d[k] = v\<close>: an existing key keeps its position, a new key goes last.\<close>

fun dict_set :: "('k \<times> 'v) list \<Rightarrow> 'k \<Rightarrow> 'v \<Rightarrow> ('k \<times> 'v) list" where
  "dict_set [] k v = [(k, v)]"
| "dict_set ((k', v') # d) k v =
     (if k' = k then (k, v) # d else (k', v') # dict_set d k v)"

text \<open>\<open>xs[-n:]\<close> for a positive \<open>n\<close>: the last \<open>n\<close> items, all of them when there are fewer.\<close>

definition last_n :: "nat \<Rightarrow> 'a list \<Rightarrow> 'a list" where
  "last_n n xs = drop (length xs - n) xs"

section \<open>The alert engine (alert_service.py)\<close>

record AlertManager =
  am_rules :: "(int \<times> AlertRule) list"
  am_next_id :: int
  am_events :: "AlertEvent list"

definition init_manager :: AlertManager where
  "init_manager = \<lparr>am_rules = [], am_next_id = 1, am_events = []\<rparr>"

text \<open>
  \<open>add_rule\<close> returns the manager after the call and the rule it stored. The arguments
  are typed as the signature annotates them, so the constructor's validation accepts them.
\<close>

definition add_rule ::
  "AlertManager \<Rightarrow> string \<Rightarrow> string \<Rightarrow> real \<Rightarrow> string \<Rightarrow> bool \<Rightarrow> int
     \<Rightarrow> AlertManager \<times> AlertRule" where
  "add_rule m symbol operator threshold description enabled cooldown_seconds =
     (let rule = \<lparr>ar_id = am_next_id m,
                  ar_symbol = upper symbol,
                  ar_operator = operator,
                  ar_threshold = threshold,
                  ar_description = description,
                  ar_enabled = enabled,
                  ar_cooldown_seconds = cooldown_seconds,
                  ar_last_triggered = None\<rparr>
      in (m\<lparr>am_rules := dict_set (am_rules m) (ar_id rule) rule,
            am_next_id := am_next_id m + 1\<rparr>, rule))"








definition list_rules :: "AlertManager \<Rightarrow> AlertRule list" where
  "list_rules m = map snd (am_rules m)"

definition condition_met :: "AlertRule \<Rightarrow> real \<Rightarrow> bool" where
  "condition_met rule price =
     (if ar_operator rule = ''>'' then price > ar_threshold rule
      else if ar_operator rule = ''<'' then price < ar_threshold rule
      else if ar_operator rule = ''>='' then price \<ge> ar_threshold rule
      else if ar_operator rule = ''<='' then price \<le> ar_threshold rule
      else if ar_operator rule = ''=='' then price = ar_threshold rule
      else False)"

definition can_trigger :: "AlertRule \<Rightarrow> datetime \<Rightarrow> bool" where
  "can_trigger rule now =
     (case ar_last_triggered rule of
        None \<Rightarrow> True
      | Some t \<Rightarrow> now - t \<ge> ar_cooldown_seconds rule * 1000000)"

text \<open>\<open>{p.symbol.upper(): p for p in prices}\<close>: a later price replaces an earlier one.\<close>

definition price_by_symbol :: "StockPrice list \<Rightarrow> (string \<rightharpoonup> StockPrice)" where
  "price_by_symbol prices = fold (\<lambda>p d. d(upper (sp_symbol p) \<mapsto> p)) prices Map.empty"

text \<open>
  The body of the loop of \<open>check_alerts\<close> for one rule: the rule after the iteration and
  the event, if the rule fired. Each \<open>continue\<close> leaves the rule as it was.
\<close>

definition check_rule ::
  "datetime \<Rightarrow> (string \<rightharpoonup> StockPrice) \<Rightarrow> AlertRule \<Rightarrow> AlertRule \<times> AlertEvent option" where
  "check_rule now pbs rule =
     (if \<not> ar_enabled rule then (rule, None)
      else case pbs (upper (ar_symbol rule)) of
        None \<Rightarrow> (rule, None)
      | Some price_obj \<Rightarrow>
          (let current_price = sp_price price_obj
           in if \<not> condition_met rule current_price then (rule, None)
              else if \<not> can_trigger rule now then (rule, None)
              else (rule\<lparr>ar_last_triggered := Some now\<rparr>,
                    Some \<lparr>ae_rule_id = ar_id rule,
                          ae_symbol = ar_symbol rule,
                          ae_price = current_price,
                          ae_triggered_at = now,
                          ae_message = AlertMessage (ar_id rule) (ar_symbol rule)
                             (ar_operator rule) (ar_threshold rule) current_price\<rparr>)))"

text \<open>
  The loop over \<open>self._rules.values()\<close>, in insertion order: the dictionary with the
  rules as the iterations left them, and the events fired, in firing order.
\<close>

fun check_loop ::
  "datetime \<Rightarrow> (string \<rightharpoonup> StockPrice) \<Rightarrow> (int \<times> AlertRule) list
     \<Rightarrow> (int \<times> AlertRule) list \<times> AlertEvent list" where
  "check_loop now pbs [] = ([], [])"
| "check_loop now pbs ((k, rule) # rest) =
     (let (rule', fired) = check_rule now pbs rule;
          (rest', events) = check_loop now pbs rest
      in ((k, rule') # rest',
          (case fired of None \<Rightarrow> events | Some event \<Rightarrow> event # events)))"

text \<open>
  \<open>check_alerts\<close> reads the clock once (\<open>now\<close>); it returns the manager after the call
  and the list of newly fired events. Every fired event is appended to both lists in
  the loop, so \<open>self._events\<close> after the loop is the old history followed by the fired
  events.
\<close>

definition check_alerts ::
  "datetime \<Rightarrow> AlertManager \<Rightarrow> StockPrice list \<Rightarrow> AlertManager \<times> AlertEvent list" where
  "check_alerts now m prices =
     (if am_rules m = [] then (m, [])
      else
        (let price_by_symbol = price_by_symbol prices;
             (rules', events) = check_loop now price_by_symbol (am_rules m);
             self_events = am_events m @ events;
             self_events' = (if length self_events > 50 then last_n 50 self_events
                             else self_events)
         in (m\<lparr>am_rules := rules', am_events := self_events'\<rparr>, events)))"

definition recent_events :: "AlertManager \<Rightarrow> AlertEvent list" where
  "recent_events m = am_events m"

section \<open>The subscriber registry (main.py, \<open>ConnectionManager\<close>)\<close>

text \<open>
  A \<open>WebSocket\<close> is an opaque handle, compared by identity. What
  \<open>await connection.send_text(message)\<close> does is a parameter of the model: for each
  connection and message it either returns (\<open>Sent\<close>) or raises an \<open>Exception\<close>
  (\<open>SendError\<close>). \<open>broadcast\<close> iterates over a copy of the list taken at the start, and
  returns the manager after the call and the attempts made, in order. Other tasks that
  run while a send is awaited are outside the model.
\<close>

type_synonym websocket = nat

datatype send_result = Sent | SendError

record ConnectionManager =
  cm_active_connections :: "websocket list"

definition disconnect :: "ConnectionManager \<Rightarrow> websocket \<Rightarrow> ConnectionManager" where
  "disconnect cm websocket =
     (if websocket \<in> set (cm_active_connections cm)
      then cm\<lparr>cm_active_connections := remove1 websocket (cm_active_connections cm)\<rparr>
      else cm)"

fun broadcast_loop ::
  "(websocket \<Rightarrow> string \<Rightarrow> send_result) \<Rightarrow> string \<Rightarrow> websocket list \<Rightarrow> ConnectionManager
     \<Rightarrow> ConnectionManager \<times> (websocket \<times> send_result) list" where
  "broadcast_loop send_text message [] cm = (cm, [])"
| "broadcast_loop send_text message (connection # rest) cm =
     (case send_text connection message of
        Sent \<Rightarrow>
          (let (cm', attempts) = broadcast_loop send_text message rest cm
           in (cm', (connection, Sent) # attempts))
      | SendError \<Rightarrow>
          (let (cm', attempts) = broadcast_loop send_text message rest (disconnect cm connection)
           in (cm', (connection, SendError) # attempts)))"

definition broadcast ::
  "(websocket \<Rightarrow> string \<Rightarrow> send_result) \<Rightarrow> ConnectionManager \<Rightarrow> string
     \<Rightarrow> ConnectionManager \<times> (websocket \<times> send_result) list" where
  "broadcast send_text cm message =
     broadcast_loop send_text message (cm_active_connections cm) cm"

section \<open>The price cache (cache_service.py)\<close>

text \<open>
  The cache keeps its payload as JSON text and compares times as Python floats. A
  \<open>pyfloat\<close> is a finite float, an infinity or NaN; the finite floats are taken from the
  reals, and rounding is left to the library (\<open>round_float\<close>). \<open>float_sub\<close> and
  \<open>float_gt_int\<close> are the float subtraction and the comparison \<open>age > max_age_seconds\<close> of
  a float with an \<open>int\<close>: every comparison with NaN is false.
\<close>

datatype pyfloat = Finite real | PosInf | NegInf | NaN

text \<open>
  A parsed JSON document. \<open>json.loads\<close> gives an \<open>int\<close> for an integer literal and a
  \<open>float\<close> for any other number, also for the literals \<open>NaN\<close>, \<open>Infinity\<close> and
  \<open>-Infinity\<close>, which it accepts. An object keeps its members as an association list.
\<close>

datatype json =
    JNull
  | JBool bool
  | JInt int
  | JFloat pyfloat
  | JString string
  | JArray "json list"
  | JObject "(string \<times> json) list"

datatype 'a outcome = Raised | Returned 'a

text \<open>
  The libraries the cache calls are parameters of the model, collected in \<open>pylib\<close>; a
  function that can raise returns \<open>None\<close> where it does:
  \<^item> \<open>json_dumps\<close>, \<open>json_loads\<close>: \<open>json.dumps\<close> and \<open>json.loads\<close> (\<open>JSONDecodeError\<close>);
  \<^item> \<open>float_of_str\<close>: \<open>float\<close> applied to a string (\<open>ValueError\<close>);
  \<^item> \<open>float_of_int\<close>: \<open>float\<close> applied to an \<open>int\<close> (\<open>OverflowError\<close> when it is too large);
  \<^item> \<open>round_float\<close>: the float that an exact result is rounded to;
  \<^item> \<open>bytes_decode\<close>: \<open>value.decode("utf-8")\<close> on what Redis returned;
  \<^item> \<open>jsonable_encoder\<close>: fastapi's encoder on a list of \<open>StockPrice\<close>;
  \<^item> \<open>StockPrice_validate\<close>: pydantic's validation of the keyword arguments of
    \<open>StockPrice(**item)\<close> (\<open>ValidationError\<close>).
\<close>

record pylib =
  json_dumps :: "json \<Rightarrow> string"
  json_loads :: "string \<Rightarrow> json option"
  float_of_str :: "string \<Rightarrow> pyfloat option"
  float_of_int :: "int \<Rightarrow> pyfloat option"
  round_float :: "real \<Rightarrow> pyfloat"
  bytes_decode :: "string \<Rightarrow> string option"
  jsonable_encoder :: "StockPrice list \<Rightarrow> json"
  StockPrice_validate :: "(string \<times> json) list \<Rightarrow> StockPrice option"

fun float_sub :: "pylib \<Rightarrow> pyfloat \<Rightarrow> pyfloat \<Rightarrow> pyfloat" where
  "float_sub lib NaN y = NaN"
| "float_sub lib x NaN = NaN"
| "float_sub lib (Finite a) (Finite b) = round_float lib (a - b)"
| "float_sub lib (Finite a) PosInf = NegInf"
| "float_sub lib (Finite a) NegInf = PosInf"
| "float_sub lib PosInf PosInf = NaN"
| "float_sub lib PosInf y = PosInf"
| "float_sub lib NegInf NegInf = NaN"
| "float_sub lib NegInf y = NegInf"

fun float_gt_int :: "pyfloat \<Rightarrow> int \<Rightarrow> bool" where
  "float_gt_int (Finite a) n = (a > real_of_int n)"
| "float_gt_int PosInf n = True"
| "float_gt_int NegInf n = False"
| "float_gt_int NaN n = False"

text \<open>
  The operations of the \<open>try\<close> block of \<open>load_prices\<close> on a parsed document, each with
  the exception it raises on a value of the wrong kind: \<open>blob.get(key, dflt)\<close>,
  \<open>float(ts)\<close>, the iteration \<open>for item in data\<close>, \<open>StockPrice(**item)\<close>, and the list
  comprehension, which stops at the first exception.
\<close>

fun dict_get :: "json \<Rightarrow> string \<Rightarrow> json \<Rightarrow> py_error + json" where
  "dict_get (JObject d) key dflt =
     Inr (case map_of d key of None \<Rightarrow> dflt | Some v \<Rightarrow> v)"
| "dict_get obj key dflt = Inl AttributeError"

fun py_float :: "pylib \<Rightarrow> json \<Rightarrow> py_error + pyfloat" where
  "py_float lib (JFloat x) = Inr x"
| "py_float lib (JInt i) =
     (case float_of_int lib i of None \<Rightarrow> Inl OverflowError | Some x \<Rightarrow> Inr x)"
| "py_float lib (JBool b) = Inr (Finite (if b then 1 else 0))"
| "py_float lib (JString s) =
     (case float_of_str lib s of None \<Rightarrow> Inl ValueError | Some x \<Rightarrow> Inr x)"
| "py_float lib obj = Inl TypeError"

fun py_iter :: "json \<Rightarrow> py_error + json list" where
  "py_iter (JArray items) = Inr items"
| "py_iter (JObject d) = Inr (map (\<lambda>(k, v). JString k) d)"
| "py_iter (JString s) = Inr (map (\<lambda>c. JString [c]) s)"
| "py_iter obj = Inl TypeError"

fun new_StockPrice :: "pylib \<Rightarrow> json \<Rightarrow> py_error + StockPrice" where
  "new_StockPrice lib (JObject item) =
     (case StockPrice_validate lib item of
        None \<Rightarrow> Inl ValidationError
      | Some p \<Rightarrow> Inr p)"
| "new_StockPrice lib obj = Inl TypeError"

fun comprehension :: "('a \<Rightarrow> py_error + 'b) \<Rightarrow> 'a list \<Rightarrow> py_error + 'b list" where
  "comprehension f [] = Inr []"
| "comprehension f (x # xs) =
     (case f x of
        Inl e \<Rightarrow> Inl e
      | Inr y \<Rightarrow> (case comprehension f xs of Inl e \<Rightarrow> Inl e | Inr ys \<Rightarrow> Inr (y # ys)))"

text \<open>
  The cache object: \<open>pc_redis_client\<close> says whether \<open>self.redis_client\<close> is set. The Redis
  server is a map from keys to stored text; whether a call on the client raises is an
  input of the model (\<open>set_raises\<close>, \<open>get_raises\<close>). \<open>time.time()\<close> is the argument \<open>now\<close>,
  a finite float.
\<close>

record PriceCache =
  pc_key :: string
  pc_backend :: string
  pc_memory_blob :: "string option"
  pc_redis_client :: bool

definition save_prices ::
  "pylib \<Rightarrow> (string \<rightharpoonup> string) \<Rightarrow> bool \<Rightarrow> real \<Rightarrow> PriceCache \<Rightarrow> StockPrice list
     \<Rightarrow> PriceCache \<times> (string \<rightharpoonup> string)" where
  "save_prices lib redis set_raises now cache prices =
     (let blob = JObject [(''ts'', JFloat (Finite now)), (''data'', jsonable_encoder lib prices)];
          raw = json_dumps lib blob;
          cache' = cache\<lparr>pc_memory_blob := Some raw\<rparr>
      in if \<not> pc_redis_client cache then (cache', redis)
         else if set_raises then (cache', redis)
         else (cache', redis(pc_key cache \<mapsto> raw)))"

definition redis_get :: "(string \<rightharpoonup> string) \<Rightarrow> bool \<Rightarrow> string \<Rightarrow> string option outcome" where
  "redis_get redis get_raises key = (if get_raises then Raised else Returned (redis key))"

text \<open>
  \<open>load_prices\<close> in three parts: the choice of the text to parse (Redis first, the
  in-memory copy when Redis gave nothing), the \<open>try\<close> block, and the handler
  \<open>except Exception\<close>, which turns every exception of the block into \<open>None\<close>.
\<close>

definition read_raw :: "pylib \<Rightarrow> string option outcome \<Rightarrow> PriceCache \<Rightarrow> string option" where
  "read_raw lib reply cache =
     (let raw =
            (if pc_redis_client cache then
               (case reply of
                  Raised \<Rightarrow> None
                | Returned None \<Rightarrow> None
                | Returned (Some v) \<Rightarrow> bytes_decode lib v)
             else None)
      in if raw = None \<and> pc_memory_blob cache \<noteq> None then pc_memory_blob cache else raw)"

definition parse_cached ::
  "pylib \<Rightarrow> real \<Rightarrow> int \<Rightarrow> string \<Rightarrow> py_error + StockPrice list option" where
  "parse_cached lib now max_age_seconds raw =
     (case json_loads lib raw of
        None \<Rightarrow> Inl JSONDecodeError
      | Some blob \<Rightarrow>
          (case dict_get blob ''ts'' JNull of
             Inl e \<Rightarrow> Inl e
           | Inr ts \<Rightarrow>
               (case dict_get blob ''data'' (JArray []) of
                  Inl e \<Rightarrow> Inl e
                | Inr data \<Rightarrow>
                    if ts = JNull then Inr None
                    else
                      (case py_float lib ts of
                         Inl e \<Rightarrow> Inl e
                       | Inr t \<Rightarrow>
                           (let age = float_sub lib (Finite now) t
                            in if float_gt_int age max_age_seconds then Inr None
                               else
                                 (case py_iter data of
                                    Inl e \<Rightarrow> Inl e
                                  | Inr items \<Rightarrow>
                                      (case comprehension (new_StockPrice lib) items of
                                         Inl e \<Rightarrow> Inl e
                                       | Inr prices \<Rightarrow> Inr (Some prices))))))))"

definition load_prices ::
  "pylib \<Rightarrow> string option outcome \<Rightarrow> real \<Rightarrow> PriceCache \<Rightarrow> int
     \<Rightarrow> py_error + StockPrice list option" where
  "load_prices lib reply now cache max_age_seconds =
     (case read_raw lib reply cache of
        None \<Rightarrow> Inr None
      | Some raw \<Rightarrow>
          (case parse_cached lib now max_age_seconds raw of
             Inl e \<Rightarrow> Inr None
           | Inr result \<Rightarrow> Inr result))"

section \<open>The engine's objects in the store\<close>

text \<open>
  \<open>list_rules\<close> and \<open>recent_events\<close> return \<open>list(...)\<close> of a container of the manager.
  What a caller can reach through the result depends on which objects are shared, so
  these two methods are also modelled over a store of objects: a rule, an event, a list
  and a dictionary are objects at addresses, a list holds addresses, and the dictionary
  \<open>self._rules\<close> maps ids to addresses. Addresses below \<open>hlimit\<close> are in use;
  \<open>alloc\<close> creates an object at the next one.
\<close>

type_synonym addr = nat

datatype pyobj =
    RuleObj AlertRule
  | EventObj AlertEvent
  | ListObj "addr list"
  | DictObj "(int \<times> addr) list"

record heap =
  cells :: "addr \<rightharpoonup> pyobj"
  hlimit :: addr

record AlertManagerObj =
  amo_rules :: addr
  amo_next_id :: int
  amo_events :: addr

definition alloc :: "heap \<Rightarrow> pyobj \<Rightarrow> heap \<times> addr" where
  "alloc h obj = (h\<lparr>cells := (cells h)(hlimit h \<mapsto> obj), hlimit := Suc (hlimit h)\<rparr>, hlimit h)"

definition list_rules_h :: "heap \<Rightarrow> AlertManagerObj \<Rightarrow> (heap \<times> addr) option" where
  "list_rules_h h self =
     (case cells h (amo_rules self) of
        Some (DictObj d) \<Rightarrow> Some (alloc h (ListObj (map snd d)))
      | _ \<Rightarrow> None)"

definition recent_events_h :: "heap \<Rightarrow> AlertManagerObj \<Rightarrow> (heap \<times> addr) option" where
  "recent_events_h h self =
     (case cells h (amo_events self) of
        Some (ListObj es) \<Rightarrow> Some (alloc h (ListObj es))
      | _ \<Rightarrow> None)"

text \<open>
  What a caller can do with a result: change the returned list in place (every such
  change leaves some list of items at its address), or assign to a field of an item.
\<close>

definition list_assign :: "heap \<Rightarrow> addr \<Rightarrow> addr list \<Rightarrow> heap" where
  "list_assign h l items = h\<lparr>cells := (cells h)(l \<mapsto> ListObj items)\<rparr>"

definition rule_setattr :: "heap \<Rightarrow> addr \<Rightarrow> (AlertRule \<Rightarrow> AlertRule) \<Rightarrow> heap" where
  "rule_setattr h a f =
     (case cells h a of
        Some (RuleObj r) \<Rightarrow> h\<lparr>cells := (cells h)(a \<mapsto> RuleObj (f r))\<rparr>
      | _ \<Rightarrow> h)"

definition event_setattr :: "heap \<Rightarrow> addr \<Rightarrow> (AlertEvent \<Rightarrow> AlertEvent) \<Rightarrow> heap" where
  "event_setattr h a f =
     (case cells h a of
        Some (EventObj e) \<Rightarrow> h\<lparr>cells := (cells h)(a \<mapsto> EventObj (f e))\<rparr>
      | _ \<Rightarrow> h)"

text \<open>
  The state of the engine read through the store: the manager of the sections above
  that the object \<open>self\<close> denotes, if every address holds an object of the right kind.
\<close>

definition rule_at :: "heap \<Rightarrow> addr \<Rightarrow> AlertRule option" where
  "rule_at h a = (case cells h a of Some (RuleObj r) \<Rightarrow> Some r | _ \<Rightarrow> None)"

definition event_at :: "heap \<Rightarrow> addr \<Rightarrow> AlertEvent option" where
  "event_at h a = (case cells h a of Some (EventObj e) \<Rightarrow> Some e | _ \<Rightarrow> None)"

definition list_at :: "heap \<Rightarrow> addr \<Rightarrow> addr list option" where
  "list_at h a = (case cells h a of Some (ListObj items) \<Rightarrow> Some items | _ \<Rightarrow> None)"

definition dict_at :: "heap \<Rightarrow> addr \<Rightarrow> (int \<times> addr) list option" where
  "dict_at h a = (case cells h a of Some (DictObj d) \<Rightarrow> Some d | _ \<Rightarrow> None)"

definition manager_view :: "heap \<Rightarrow> AlertManagerObj \<Rightarrow> AlertManager option" where
  "manager_view h self =
     (case (dict_at h (amo_rules self), list_at h (amo_events self)) of
        (Some d, Some es) \<Rightarrow>
          (case (those (map (\<lambda>(k, a). map_option (Pair k) (rule_at h a)) d),
                 those (map (event_at h) es)) of
             (Some rules, Some events) \<Rightarrow>
               Some \<lparr>am_rules = rules, am_next_id = amo_next_id self, am_events = events\<rparr>
           | _ \<Rightarrow> None)
      | _ \<Rightarrow> None)"

definition heap_ok :: "heap \<Rightarrow> AlertManagerObj \<Rightarrow> bool" where
  "heap_ok h self \<longleftrightarrow>
     amo_rules self < hlimit h \<and> amo_events self < hlimit h \<and>
     (case (dict_at h (amo_rules self), list_at h (amo_events self)) of
        (Some d, Some es) \<Rightarrow>
          list_all (\<lambda>(k, a). a < hlimit h \<and> rule_at h a \<noteq> None) d \<and>
          list_all (\<lambda>a. a < hlimit h \<and> event_at h a \<noteq> None) es
      | _ \<Rightarrow> False)"

section \<open>Vocabulary of the properties\<close>

text \<open>
  A rule fires in an iteration when the loop body reaches the assignment to
  \<open>last_triggered\<close>, that is, when it yields an event.
\<close>

definition fires :: "datetime \<Rightarrow> (string \<rightharpoonup> StockPrice) \<Rightarrow> AlertRule \<Rightarrow> bool" where
  "fires now pbs rule = (snd (check_rule now pbs rule) \<noteq> None)"

text \<open>The events of a list that belong to the rule with a given id.\<close>

definition rule_events :: "int \<Rightarrow> AlertEvent list \<Rightarrow> AlertEvent list" where
  "rule_events i events = filter (\<lambda>e. ae_rule_id e = i) events"

text \<open>
  The shape of \<open>self._rules\<close> that \<open>add_rule\<close> maintains: every rule is stored under its
  own id, a dictionary has no key twice, and every id in use is below \<open>_next_id\<close>.
\<close>

definition rules_ok :: "AlertManager \<Rightarrow> bool" where
  "rules_ok m \<longleftrightarrow>
     distinct (map fst (am_rules m)) \<and>
     list_all (\<lambda>(k, r). ar_id r = k \<and> k < am_next_id m) (am_rules m)"

text \<open>
  A client of the engine: a sequence of calls to \<open>add_rule\<close> and \<open>check_alerts\<close> on one
  manager, each call with its value returned.
\<close>

datatype command =
    AddRule string string real string bool int
  | CheckAlerts datetime "StockPrice list"

datatype response = RuleAdded AlertRule | EventsFired "AlertEvent list"

fun step :: "AlertManager \<Rightarrow> command \<Rightarrow> AlertManager \<times> response" where
  "step m (AddRule symbol operator threshold description enabled cooldown_seconds) =
     (let (m', rule) = add_rule m symbol operator threshold description enabled cooldown_seconds
      in (m', RuleAdded rule))"
| "step m (CheckAlerts now prices) =
     (let (m', events) = check_alerts now m prices in (m', EventsFired events))"

fun run :: "AlertManager \<Rightarrow> command list \<Rightarrow> AlertManager \<times> response list" where
  "run m [] = (m, [])"
| "run m (c # cs) =
     (let (m', r) = step m c; (m'', rs) = run m' cs in (m'', r # rs))"

text \<open>Every event the calls fired, in firing order, and every rule they returned.\<close>

fun fired_events :: "response list \<Rightarrow> AlertEvent list" where
  "fired_events [] = []"
| "fired_events (EventsFired events # rs) = events @ fired_events rs"
| "fired_events (RuleAdded rule # rs) = fired_events rs"



text \<open>
  The times at which the rule with a given id fired, read off a list of events, and
  what the cooldown asks of them: each fire is at least the cooldown after the fire
  before it. \<open>history_ok\<close> ties a manager to the events fired on it so far: a rule's
  \<open>last_triggered\<close> is the time of its latest fire.
\<close>

definition fire_times :: "int \<Rightarrow> AlertEvent list \<Rightarrow> datetime list" where
  "fire_times i events = map ae_triggered_at (rule_events i events)"

definition spaced :: "int \<Rightarrow> datetime list \<Rightarrow> bool" where
  "spaced cooldown_seconds fire_ts =
     successively (\<lambda>earlier later. later - earlier \<ge> cooldown_seconds * 1000000) fire_ts"

definition history_ok :: "AlertManager \<Rightarrow> AlertEvent list \<Rightarrow> bool" where
  "history_ok m past \<longleftrightarrow>
     rules_ok m \<and>
     list_all (\<lambda>e. ae_rule_id e < am_next_id m) past \<and>
     list_all (\<lambda>(k, r).
        spaced (ar_cooldown_seconds r) (fire_times k past) \<and>
        (case ar_last_triggered r of
           None \<Rightarrow> fire_times k past = []
         | Some t \<Rightarrow> fire_times k past \<noteq> [] \<and> last (fire_times k past) = t)) (am_rules m)"

subsection \<open>Concrete inputs\<close>

text \<open>
  Three rules in the style of \<open>load_alert_rules\<close>: the demo rule on AAPL, a rule with an
  operator the engine does not know, and a disabled rule.
\<close>

definition demo_commands :: "command list" where
  "demo_commands =
     [AddRule ''aapl'' ''>'' 0 ''DEMO: AAPL > 0'' True 10,
      AddRule ''TSLA'' ''!='' 0 ''TSLA != 0'' True 10,
      AddRule ''NVDA'' ''>'' 0 ''DEMO: NVDA > 0'' False 10]"

definition rule_aapl :: AlertRule where
  "rule_aapl = \<lparr>ar_id = 1, ar_symbol = ''AAPL'', ar_operator = ''>'', ar_threshold = 0,
     ar_description = ''DEMO: AAPL > 0'', ar_enabled = True, ar_cooldown_seconds = 10,
     ar_last_triggered = None\<rparr>"

definition rule_tsla :: AlertRule where
  "rule_tsla = \<lparr>ar_id = 2, ar_symbol = ''TSLA'', ar_operator = ''!='', ar_threshold = 0,
     ar_description = ''TSLA != 0'', ar_enabled = True, ar_cooldown_seconds = 10,
     ar_last_triggered = None\<rparr>"

definition rule_nvda :: AlertRule where
  "rule_nvda = \<lparr>ar_id = 3, ar_symbol = ''NVDA'', ar_operator = ''>'', ar_threshold = 0,
     ar_description = ''DEMO: NVDA > 0'', ar_enabled = False, ar_cooldown_seconds = 10,
     ar_last_triggered = None\<rparr>"

definition demo_manager :: AlertManager where
  "demo_manager =
     \<lparr>am_rules = [(1, rule_aapl), (2, rule_tsla), (3, rule_nvda)], am_next_id = 4,
      am_events = []\<rparr>"

definition demo_prices :: "StockPrice list" where
  "demo_prices =
     [\<lparr>sp_symbol = ''AAPL'', sp_price = 150, sp_change = 1, sp_percentChange = 1 / 2, sp_ts = 0\<rparr>,
      \<lparr>sp_symbol = ''TSLA'', sp_price = 250, sp_change = 0, sp_percentChange = 0, sp_ts = 0\<rparr>,
      \<lparr>sp_symbol = ''NVDA'', sp_price = 900, sp_change = 0, sp_percentChange = 0, sp_ts = 0\<rparr>]"

definition event_aapl :: "datetime \<Rightarrow> AlertEvent" where
  "event_aapl now = \<lparr>ae_rule_id = 1, ae_symbol = ''AAPL'', ae_price = 150, ae_triggered_at = now,
     ae_message = AlertMessage 1 ''AAPL'' ''>'' 0 150\<rparr>"

definition fired_manager :: "datetime \<Rightarrow> AlertManager" where
  "fired_manager now =
     \<lparr>am_rules = [(1, rule_aapl\<lparr>ar_last_triggered := Some now\<rparr>), (2, rule_tsla), (3, rule_nvda)],
      am_next_id = 4, am_events = [event_aapl now]\<rparr>"

text \<open>A session: the three rules, then three evaluations at 0 s, 5 s and 11 s.\<close>

definition demo_session :: "command list" where
  "demo_session =
     demo_commands @
     [CheckAlerts 0 demo_prices, CheckAlerts 5000000 demo_prices,
      CheckAlerts 11000000 demo_prices]"

text \<open>
  The rules that \<open>load_alert_rules\<close> registers in demo mode, evaluated every 10 s as the
  price loop does: the rules as stored when they last fired at \<open>fired_at\<close>, the three
  events of one evaluation, and a session of 17 evaluations, which fires 51 events.
\<close>

definition startup_commands :: "command list" where
  "startup_commands =
     [AddRule ''AAPL'' ''>'' 0 ''DEMO: AAPL > 0'' True 10,
      AddRule ''TSLA'' ''>'' 0 ''DEMO: TSLA > 0'' True 10,
      AddRule ''NVDA'' ''>'' 0 ''DEMO: NVDA > 0'' True 10]"

definition startup_rules :: "datetime option \<Rightarrow> (int \<times> AlertRule) list" where
  "startup_rules fired_at =
     [(1, \<lparr>ar_id = 1, ar_symbol = ''AAPL'', ar_operator = ''>'', ar_threshold = 0,
           ar_description = ''DEMO: AAPL > 0'', ar_enabled = True, ar_cooldown_seconds = 10,
           ar_last_triggered = fired_at\<rparr>),
      (2, \<lparr>ar_id = 2, ar_symbol = ''TSLA'', ar_operator = ''>'', ar_threshold = 0,
           ar_description = ''DEMO: TSLA > 0'', ar_enabled = True, ar_cooldown_seconds = 10,
           ar_last_triggered = fired_at\<rparr>),
      (3, \<lparr>ar_id = 3, ar_symbol = ''NVDA'', ar_operator = ''>'', ar_threshold = 0,
           ar_description = ''DEMO: NVDA > 0'', ar_enabled = True, ar_cooldown_seconds = 10,
           ar_last_triggered = fired_at\<rparr>)]"

definition cycle :: "nat \<Rightarrow> command" where
  "cycle n = CheckAlerts (int n * 10000000) demo_prices"

definition cycle_event :: "int \<Rightarrow> string \<Rightarrow> real \<Rightarrow> datetime \<Rightarrow> AlertEvent" where
  "cycle_event i symbol price now =
     \<lparr>ae_rule_id = i, ae_symbol = symbol, ae_price = price, ae_triggered_at = now,
      ae_message = AlertMessage i symbol ''>'' 0 price\<rparr>"

definition cycle_events :: "datetime \<Rightarrow> AlertEvent list" where
  "cycle_events now =
     [cycle_event 1 ''AAPL'' 150 now, cycle_event 2 ''TSLA'' 250 now,
      cycle_event 3 ''NVDA'' 900 now]"

definition long_session :: "command list" where
  "long_session = startup_commands @ map cycle [0..<17]"

definition long_fired :: "AlertEvent list" where
  "long_fired = concat (map (\<lambda>n. cycle_events (int n * 10000000)) [0..<17])"


text \<open>Three subscribers, the second of which fails on every send.\<close>

definition three_subscribers :: ConnectionManager where
  "three_subscribers = \<lparr>cm_active_connections = [1, 2, 3]\<rparr>"

definition second_fails :: "websocket \<Rightarrow> string \<Rightarrow> send_result" where
  "second_fails websocket message = (if websocket = 2 then SendError else Sent)"

text \<open>
  The behaviour of the libraries on the payloads of the examples: the payload of a
  snapshot saved at time 100, that of an older one saved at time 90, the older one with
  \<open>NaN\<close> in the place of its time, and one whose time is a word. \<open>json.loads\<close> is
  given on these four texts, \<open>json.dumps\<close> on the two documents the examples save. The
  times of the examples are whole numbers of seconds, whose differences floats
  represent exactly, so \<open>round_float\<close> returns its argument; no string of the examples
  is a number for \<open>float\<close>.
\<close>

definition quote_new :: StockPrice where
  "quote_new = \<lparr>sp_symbol = ''AAPL'', sp_price = 150, sp_change = 1, sp_percentChange = 1 / 2,
     sp_ts = 0\<rparr>"

definition quote_old :: StockPrice where
  "quote_old = \<lparr>sp_symbol = ''AAPL'', sp_price = 149, sp_change = 0, sp_percentChange = 0,
     sp_ts = 0\<rparr>"

definition demo_encode :: "StockPrice \<Rightarrow> json" where
  "demo_encode p =
     JObject [(''symbol'', JString (sp_symbol p)), (''price'', JFloat (Finite (sp_price p))),
              (''change'', JFloat (Finite (sp_change p))),
              (''percentChange'', JFloat (Finite (sp_percentChange p))),
              (''ts'', JString (if sp_ts p = 0 then ''1970-01-01T00:00:00Z'' else ''?''))]"

definition demo_validate :: "(string \<times> json) list \<Rightarrow> StockPrice option" where
  "demo_validate item =
     (case (map_of item ''symbol'', map_of item ''price'', map_of item ''change'',
            map_of item ''percentChange'', map_of item ''ts'') of
        (Some (JString s), Some (JFloat (Finite p)), Some (JFloat (Finite c)),
         Some (JFloat (Finite pc)), Some (JString t)) \<Rightarrow>
          (if t = ''1970-01-01T00:00:00Z''
           then Some \<lparr>sp_symbol = s, sp_price = p, sp_change = c, sp_percentChange = pc, sp_ts = 0\<rparr>
           else None)
      | _ \<Rightarrow> None)"

definition blob_new :: json where
  "blob_new = JObject [(''ts'', JFloat (Finite 100)), (''data'', JArray [demo_encode quote_new])]"

definition blob_old :: json where
  "blob_old = JObject [(''ts'', JFloat (Finite 90)), (''data'', JArray [demo_encode quote_old])]"

definition blob_nan :: json where
  "blob_nan = JObject [(''ts'', JFloat NaN), (''data'', JArray [demo_encode quote_old])]"

definition raw_new :: string where
  "raw_new = ''{\"ts\": 100.0, \"data\": [{\"symbol\": \"AAPL\", \"price\": 150.0, \"change\": 1.0, \"percentChange\": 0.5, \"ts\": \"1970-01-01T00:00:00Z\"}]}''"

definition raw_old :: string where
  "raw_old = ''{\"ts\": 90.0, \"data\": [{\"symbol\": \"AAPL\", \"price\": 149.0, \"change\": 0.0, \"percentChange\": 0.0, \"ts\": \"1970-01-01T00:00:00Z\"}]}''"

definition raw_nan :: string where
  "raw_nan = ''{\"ts\": NaN, \"data\": [{\"symbol\": \"AAPL\", \"price\": 149.0, \"change\": 0.0, \"percentChange\": 0.0, \"ts\": \"1970-01-01T00:00:00Z\"}]}''"

definition raw_text_ts :: string where
  "raw_text_ts = ''{\"ts\": \"yesterday\", \"data\": []}''"

definition demo_lib :: pylib where
  "demo_lib =
     \<lparr>json_dumps = (\<lambda>j. if j = blob_new then raw_new else if j = blob_old then raw_old else ''null''),
      json_loads = (\<lambda>raw. if raw = raw_new then Some blob_new
                           else if raw = raw_old then Some blob_old
                           else if raw = raw_nan then Some blob_nan
                           else if raw = raw_text_ts
                             then Some (JObject [(''ts'', JString ''yesterday''), (''data'', JArray [])])
                           else None),
      float_of_str = (\<lambda>s. None),
      float_of_int = (\<lambda>i. Some (Finite (real_of_int i))),
      round_float = Finite,
      bytes_decode = Some,
      jsonable_encoder = (\<lambda>prices. JArray (map demo_encode prices)),
      StockPrice_validate = demo_validate\<rparr>"

definition memory_cache :: PriceCache where
  "memory_cache = \<lparr>pc_key = ''smartstock:latest_prices'', pc_backend = ''memory'',
     pc_memory_blob = None, pc_redis_client = False\<rparr>"

definition redis_cache :: PriceCache where
  "redis_cache = \<lparr>pc_key = ''smartstock:latest_prices'', pc_backend = ''redis'',
     pc_memory_blob = Some raw_old, pc_redis_client = True\<rparr>"

definition redis_old :: "string \<rightharpoonup> string" where
  "redis_old = [''smartstock:latest_prices'' \<mapsto> raw_old]"

text \<open>A store with one rule and one event in the history.\<close>

definition rule_fired :: AlertRule where
  "rule_fired = rule_aapl\<lparr>ar_last_triggered := Some 0\<rparr>"

definition demo_heap :: heap where
  "demo_heap =
     \<lparr>cells = [0 \<mapsto> DictObj [(1, 2)], 1 \<mapsto> ListObj [3],
               2 \<mapsto> RuleObj rule_fired, 3 \<mapsto> EventObj (event_aapl 0)],
      hlimit = 4\<rparr>"

definition demo_self :: AlertManagerObj where
  "demo_self = \<lparr>amo_rules = 0, amo_next_id = 2, amo_events = 1\<rparr>"

definition listed_heap :: heap where
  "listed_heap = \<lparr>cells = (cells demo_heap)(4 \<mapsto> ListObj [2]), hlimit = 5\<rparr>"

definition recent_heap :: heap where
  "recent_heap = \<lparr>cells = (cells demo_heap)(4 \<mapsto> ListObj [3]), hlimit = 5\<rparr>"

definition demo_view :: AlertManager where
  "demo_view = \<lparr>am_rules = [(1, rule_fired)], am_next_id = 2, am_events = [event_aapl 0]\<rparr>"

section \<open>The alert engine: lemmas\<close>

lemmas demo_defs =
  demo_manager_def rule_aapl_def rule_tsla_def rule_nvda_def demo_prices_def event_aapl_def
  fired_manager_def

lemmas engine_defs =
  check_alerts_def check_rule_def condition_met_def can_trigger_def price_by_symbol_def
  upper_def upper_char_def last_n_def Let_def

lemma demo_rules_ok: "rules_ok demo_manager"
  by (simp add: rules_ok_def demo_defs)

lemma demo_check_alerts:
  "check_alerts 0 demo_manager demo_prices = (fired_manager 0, [event_aapl 0])"
  by (simp add: demo_defs engine_defs)

lemma check_loop_rules:
  "fst (check_loop now pbs rs) = map (\<lambda>(k, r). (k, fst (check_rule now pbs r))) rs"
  by (induction rs) (auto split: prod.splits)

lemma check_loop_events:
  "snd (check_loop now pbs rs) = List.map_filter (\<lambda>(k, r). snd (check_rule now pbs r)) rs"
  by (induction rs) (auto simp: List.map_filter_simps split: prod.splits option.splits)

lemma fires_iff:
  "fires now pbs rule \<longleftrightarrow>
     ar_enabled rule \<and>
     (\<exists>p. pbs (upper (ar_symbol rule)) = Some p \<and> condition_met rule (sp_price p)) \<and>
     can_trigger rule now"
  by (auto simp: fires_def check_rule_def Let_def split: option.splits)

lemma check_rule_not_fires:
  "\<not> fires now pbs rule \<Longrightarrow> check_rule now pbs rule = (rule, None)"
  by (auto simp: fires_def check_rule_def Let_def split: option.splits)

lemma check_rule_fst:
  "fst (check_rule now pbs rule) =
     (if fires now pbs rule then rule\<lparr>ar_last_triggered := Some now\<rparr> else rule)"
  by (auto simp: fires_def check_rule_def Let_def split: option.splits)

lemma check_rule_event:
  "snd (check_rule now pbs rule) = Some e \<Longrightarrow>
     ae_rule_id e = ar_id rule \<and> ae_symbol e = ar_symbol rule \<and> ae_triggered_at e = now"
  by (auto simp: check_rule_def Let_def split: option.splits if_splits)

lemma check_alerts_rules:
  "am_rules (fst (check_alerts now m prices)) =
     map (\<lambda>(k, r). (k, fst (check_rule now (price_by_symbol prices) r))) (am_rules m)"
  by (simp add: check_alerts_def Let_def check_loop_rules split: prod.splits)
    (metis check_loop_rules fst_conv)

lemma check_alerts_fired:
  "snd (check_alerts now m prices) =
     List.map_filter (\<lambda>(k, r). snd (check_rule now (price_by_symbol prices) r)) (am_rules m)"
  by (simp add: check_alerts_def Let_def List.map_filter_simps split: prod.splits)
    (metis check_loop_events snd_conv)

lemma check_alerts_next_id:
  "am_next_id (fst (check_alerts now m prices)) = am_next_id m"
  by (simp add: check_alerts_def Let_def split: prod.splits)

lemma check_alerts_history:
  "am_events (fst (check_alerts now m prices)) =
     (if am_rules m = [] then am_events m
      else let self_events = am_events m @ snd (check_alerts now m prices)
           in if length self_events > 50 then last_n 50 self_events else self_events)"
  by (simp add: check_alerts_def Let_def split: prod.splits)

lemma check_alerts_keys:
  "map fst (am_rules (fst (check_alerts now m prices))) = map fst (am_rules m)"
  by (simp add: check_alerts_rules case_prod_unfold comp_def)

lemma rule_events_loop:
  "distinct (map (ar_id \<circ> snd) rs) \<Longrightarrow> (k, r) \<in> set rs \<Longrightarrow>
     rule_events (ar_id r) (List.map_filter (\<lambda>(k, r). snd (check_rule now pbs r)) rs) =
     (case snd (check_rule now pbs r) of None \<Rightarrow> [] | Some e \<Rightarrow> [e])"
proof (induction rs)
  case Nil
  then show ?case by simp
next
  case (Cons a rs)
  obtain k' r' where a: "a = (k', r')" by (cases a)
  have other: "rule_events (ar_id r') (List.map_filter (\<lambda>(k, r). snd (check_rule now pbs r)) rs) = []"
    if "ar_id r' \<notin> (ar_id \<circ> snd) ` set rs" for rs
    using that
    by (induction rs)
      (auto simp: rule_events_def List.map_filter_simps dest: check_rule_event split: option.splits)
  show ?case
  proof (cases "(k, r) = a")
    case True
    with Cons.prems a other[of rs] show ?thesis
      by (auto simp: List.map_filter_simps rule_events_def dest: check_rule_event split: option.splits)
  next
    case False
    with Cons.prems a have in_rs: "(k, r) \<in> set rs" and ne: "ar_id r' \<noteq> ar_id r"
      by (auto simp: rev_image_eqI)
    with Cons a show ?thesis
      by (auto simp: List.map_filter_simps rule_events_def dest: check_rule_event split: option.splits)
  qed
qed

lemma rules_ok_distinct_ids: "rules_ok m \<Longrightarrow> distinct (map (ar_id \<circ> snd) (am_rules m))"
proof -
  assume ok: "rules_ok m"
  then have d: "distinct (map fst (am_rules m))"
    by (simp add: rules_ok_def)
  from ok have e: "map (ar_id \<circ> snd) (am_rules m) = map fst (am_rules m)"
    by (auto simp: rules_ok_def list_all_iff)
  show ?thesis unfolding e by (rule d)
qed

text \<open>The events of one call that belong to a stored rule: its own event, if it fired.\<close>

lemma rule_events_check_alerts:
  assumes "rules_ok m" and "(k, r) \<in> set (am_rules m)"
  shows "rule_events (ar_id r) (snd (check_alerts now m prices)) =
           (case snd (check_rule now (price_by_symbol prices) r) of None \<Rightarrow> [] | Some e \<Rightarrow> [e])"
  using rule_events_loop[OF rules_ok_distinct_ids[OF assms(1)] assms(2)]
  by (simp add: check_alerts_fired)

text \<open>The rule stored under a key after one call.\<close>

lemma stored_rule_check_alerts:
  assumes "rules_ok m" and "(k, r) \<in> set (am_rules m)"
  shows "map_of (am_rules (fst (check_alerts now m prices))) k =
           Some (fst (check_rule now (price_by_symbol prices) r))"
proof -
  have "distinct (map fst (am_rules (fst (check_alerts now m prices))))"
    using assms(1) by (simp add: check_alerts_keys rules_ok_def)
  moreover have "(k, fst (check_rule now (price_by_symbol prices) r))
      \<in> set (am_rules (fst (check_alerts now m prices)))"
    using assms(2) by (force simp: check_alerts_rules)
  ultimately show ?thesis by (rule map_of_is_SomeI)
qed

lemma check_alerts_rules_ok: "rules_ok m \<Longrightarrow> rules_ok (fst (check_alerts now m prices))"
proof -
  assume ok: "rules_ok m"
  have "distinct (map fst (am_rules (fst (check_alerts now m prices))))"
    using ok by (simp add: check_alerts_keys rules_ok_def)
  moreover have "list_all (\<lambda>(k, r). ar_id r = k \<and> k < am_next_id (fst (check_alerts now m prices)))
      (am_rules (fst (check_alerts now m prices)))"
    using ok
    by (auto simp: rules_ok_def check_alerts_next_id check_alerts_rules check_rule_fst list_all_iff)
  ultimately show ?thesis by (simp add: rules_ok_def)
qed

lemma length_last_n: "length (last_n n xs) = min n (length xs)"
  by (simp add: last_n_def)

lemma last_n_append_last_n: "last_n n (last_n n xs @ ys) = last_n n (xs @ ys)"
proof (cases "length xs \<le> n")
  case True
  then show ?thesis by (simp add: last_n_def)
next
  case False
  then have "length xs + length ys - n = (length xs - n) + length ys"
    by simp
  with False show ?thesis by (simp add: last_n_def add.commute)
qed

lemma last_n_short: "length xs \<le> n \<Longrightarrow> last_n n xs = xs"
  by (simp add: last_n_def)

lemma check_alerts_history_last_n:
  "length (am_events m) \<le> 50 \<Longrightarrow>
     am_events (fst (check_alerts now m prices)) =
       last_n 50 (am_events m @ snd (check_alerts now m prices))"
proof -
  assume short: "length (am_events m) \<le> 50"
  show ?thesis
  proof (cases "am_rules m = []")
    case True
    with short show ?thesis by (simp add: check_alerts_def last_n_short)
  next
    case False
    then show ?thesis
      using check_alerts_history[of now m prices] by (auto simp: Let_def last_n_short)
  qed
qed

lemma run_history:
  "am_events m = last_n 50 past \<Longrightarrow>
     am_events (fst (run m cmds)) = last_n 50 (past @ fired_events (snd (run m cmds)))"
proof (induction cmds arbitrary: m past)
  case Nil
  then show ?case by simp
next
  case (Cons c cmds)
  show ?case
  proof (cases c)
    case (AddRule symbol operator threshold description enabled cooldown_seconds)
    let ?m1 = "fst (add_rule m symbol operator threshold description enabled cooldown_seconds)"
    have "am_events ?m1 = last_n 50 past"
      using Cons.prems by (simp add: add_rule_def Let_def)
    from Cons.IH[OF this] AddRule show ?thesis
      by (simp add: case_prod_unfold Let_def)
  next
    case (CheckAlerts now prices)
    let ?m1 = "fst (check_alerts now m prices)"
    let ?evs = "snd (check_alerts now m prices)"
    have "length (am_events m) \<le> 50"
      using Cons.prems by (simp add: length_last_n)
    then have "am_events ?m1 = last_n 50 (past @ ?evs)"
      using Cons.prems by (simp add: check_alerts_history_last_n last_n_append_last_n)
    from Cons.IH[OF this] CheckAlerts show ?thesis
      by (simp add: case_prod_unfold Let_def)
  qed
qed

lemma dict_set_fresh: "k \<notin> fst ` set d \<Longrightarrow> dict_set d k v = d @ [(k, v)]"
  by (induction d) auto




text \<open>
  Every state that calls of \<open>add_rule\<close> and \<open>check_alerts\<close> reach from a fresh manager
  satisfies \<open>rules_ok\<close>.
\<close>

lemma add_rule_rules_ok:
  assumes "rules_ok m"
  shows "rules_ok (fst (add_rule m s op t d e c))"
proof -
  have fresh: "am_next_id m \<notin> fst ` set (am_rules m)"
    using assms by (auto simp: rules_ok_def list_all_iff)
  then have rules: "am_rules (fst (add_rule m s op t d e c)) =
      am_rules m @ [(am_next_id m, snd (add_rule m s op t d e c))]"
    by (simp add: add_rule_def Let_def dict_set_fresh)
  have nid: "am_next_id (fst (add_rule m s op t d e c)) = am_next_id m + 1"
    and rid: "ar_id (snd (add_rule m s op t d e c)) = am_next_id m"
    by (simp_all add: add_rule_def Let_def)
  show ?thesis
    using assms fresh unfolding rules_ok_def rules nid
    by (auto simp: rid list_all_iff)
qed

lemma init_rules_ok: "rules_ok init_manager"
  by (simp add: rules_ok_def init_manager_def)

lemma run_rules_ok: "rules_ok m \<Longrightarrow> rules_ok (fst (run m cmds))"
proof (induction cmds arbitrary: m)
  case Nil
  then show ?case by simp
next
  case (Cons c cmds)
  show ?case
  proof (cases c)
    case (AddRule s op t d e cd)
    from Cons.IH[OF add_rule_rules_ok[OF Cons.prems, of s op t d e cd]] AddRule
    show ?thesis by (simp add: case_prod_unfold Let_def)
  next
    case (CheckAlerts now prices)
    from Cons.IH[OF check_alerts_rules_ok[OF Cons.prems, of now prices]] CheckAlerts
    show ?thesis by (simp add: case_prod_unfold Let_def)
  qed
qed

lemma reachable_rules_ok: "rules_ok (fst (run init_manager cmds))"
  by (rule run_rules_ok[OF init_rules_ok])

text \<open>Over a whole session, the fires of every rule are spaced by its cooldown.\<close>

lemma fire_times_append: "fire_times i (xs @ ys) = fire_times i xs @ fire_times i ys"
  by (simp add: fire_times_def rule_events_def)

lemma fire_times_check_alerts:
  assumes "rules_ok m" and "(k, r) \<in> set (am_rules m)"
  shows "fire_times k (snd (check_alerts now m prices)) =
           (if fires now (price_by_symbol prices) r then [now] else [])"
proof -
  have k: "ar_id r = k"
    using assms by (auto simp: rules_ok_def list_all_iff)
  show ?thesis
    using rule_events_check_alerts[OF assms, of now prices]
    by (auto simp: fire_times_def k fires_def dest: check_rule_event split: option.splits)
qed

lemma check_alerts_ids_below:
  assumes "rules_ok m" and "e \<in> set (snd (check_alerts now m prices))"
  shows "ae_rule_id e < am_next_id m"
proof -
  from assms(2) obtain k r where "(k, r) \<in> set (am_rules m)"
    and "snd (check_rule now (price_by_symbol prices) r) = Some e"
    by (auto simp: check_alerts_fired map_filter_def)
  with assms(1) show ?thesis
    by (auto simp: rules_ok_def list_all_iff dest!: check_rule_event)
qed

lemma check_alerts_history_ok:
  assumes "history_ok m past"
  shows "history_ok (fst (check_alerts now m prices)) (past @ snd (check_alerts now m prices))"
proof -
  let ?m' = "fst (check_alerts now m prices)"
  let ?evs = "snd (check_alerts now m prices)"
  let ?pbs = "price_by_symbol prices"
  from assms have ok: "rules_ok m" by (simp add: history_ok_def)
  have ok': "rules_ok ?m'" using ok by (rule check_alerts_rules_ok)
  have below: "list_all (\<lambda>e. ae_rule_id e < am_next_id ?m') (past @ ?evs)"
    using assms check_alerts_ids_below[OF ok]
    by (auto simp: history_ok_def list_all_iff check_alerts_next_id)
  have each: "spaced (ar_cooldown_seconds r') (fire_times k (past @ ?evs)) \<and>
      (case ar_last_triggered r' of
         None \<Rightarrow> fire_times k (past @ ?evs) = []
       | Some t \<Rightarrow> fire_times k (past @ ?evs) \<noteq> [] \<and> last (fire_times k (past @ ?evs)) = t)"
    if "(k, r') \<in> set (am_rules ?m')" for k r'
  proof -
    from that obtain r where r: "(k, r) \<in> set (am_rules m)"
      and r': "r' = fst (check_rule now ?pbs r)"
      by (auto simp: check_alerts_rules)
    from assms r have sp: "spaced (ar_cooldown_seconds r) (fire_times k past)"
      and lt: "case ar_last_triggered r of
           None \<Rightarrow> fire_times k past = []
         | Some t \<Rightarrow> fire_times k past \<noteq> [] \<and> last (fire_times k past) = t"
      by (auto simp: history_ok_def list_all_iff)
    note ft = fire_times_check_alerts[OF ok r, of now prices]
    show ?thesis
    proof (cases "fires now ?pbs r")
      case False
      with sp lt ft r' show ?thesis
        by (auto simp: fire_times_append check_rule_fst split: option.splits)
    next
      case True
      then have ct: "can_trigger r now" by (simp add: fires_iff)
      have "spaced (ar_cooldown_seconds r) (fire_times k past @ [now])"
        using sp lt ct
        by (auto simp: spaced_def successively_append_iff can_trigger_def split: option.splits)
      with True ft r' show ?thesis
        by (auto simp: fire_times_append check_rule_fst split: option.splits)
    qed
  qed
  then have "list_all (\<lambda>(k, r).
        spaced (ar_cooldown_seconds r) (fire_times k (past @ ?evs)) \<and>
        (case ar_last_triggered r of
           None \<Rightarrow> fire_times k (past @ ?evs) = []
         | Some t \<Rightarrow> fire_times k (past @ ?evs) \<noteq> [] \<and> last (fire_times k (past @ ?evs)) = t))
      (am_rules ?m')"
    by (auto simp: list_all_iff)
  with ok' below show ?thesis by (simp add: history_ok_def)
qed

lemma add_rule_history_ok:
  assumes "history_ok m past"
  shows "history_ok (fst (add_rule m s op t d e c)) past"
proof -
  let ?m' = "fst (add_rule m s op t d e c)"
  from assms have ok: "rules_ok m" by (simp add: history_ok_def)
  have ok': "rules_ok ?m'" using ok by (rule add_rule_rules_ok)
  have fresh: "am_next_id m \<notin> fst ` set (am_rules m)"
    using ok by (auto simp: rules_ok_def list_all_iff)
  then have rules: "am_rules ?m' = am_rules m @ [(am_next_id m, snd (add_rule m s op t d e c))]"
    by (simp add: add_rule_def Let_def dict_set_fresh)
  have nid: "am_next_id ?m' = am_next_id m + 1"
    and new: "ar_last_triggered (snd (add_rule m s op t d e c)) = None"
    by (simp_all add: add_rule_def Let_def)
  have none: "fire_times (am_next_id m) past = []"
    using assms by (auto simp: history_ok_def fire_times_def rule_events_def list_all_iff filter_empty_conv)
  show ?thesis
    using assms ok' none
    by (auto simp: history_ok_def rules nid new spaced_def list_all_iff)
qed

lemma run_history_ok:
  "history_ok m past \<Longrightarrow> history_ok (fst (run m cmds)) (past @ fired_events (snd (run m cmds)))"
proof (induction cmds arbitrary: m past)
  case Nil
  then show ?case by simp
next
  case (Cons c cmds)
  show ?case
  proof (cases c)
    case (AddRule s op t d e cd)
    from Cons.IH[OF add_rule_history_ok[OF Cons.prems, of s op t d e cd]] AddRule
    show ?thesis by (simp add: case_prod_unfold Let_def)
  next
    case (CheckAlerts now prices)
    from Cons.IH[OF check_alerts_history_ok[OF Cons.prems, of now prices]] CheckAlerts
    show ?thesis by (simp add: case_prod_unfold Let_def)
  qed
qed

lemma fires_spaced_by_cooldown:
  assumes "(k, r) \<in> set (am_rules (fst (run init_manager cmds)))"
  shows "spaced (ar_cooldown_seconds r) (fire_times k (fired_events (snd (run init_manager cmds))))"
proof -
  have "history_ok init_manager []"
    by (simp add: history_ok_def rules_ok_def init_manager_def)
  from run_history_ok[OF this, of cmds] assms show ?thesis
    by (auto simp: history_ok_def list_all_iff)
qed


lemma demo_run:
  "run init_manager demo_commands =
     (demo_manager, [RuleAdded rule_aapl, RuleAdded rule_tsla, RuleAdded rule_nvda])"
  by (simp add: demo_commands_def init_manager_def add_rule_def demo_defs upper_def upper_char_def
      Let_def)

lemma run_append:
  "run m (cs @ ds) =
     (fst (run (fst (run m cs)) ds), snd (run m cs) @ snd (run (fst (run m cs)) ds))"
  by (induction cs arbitrary: m) (simp_all add: case_prod_unfold Let_def)

lemma demo_second: "check_alerts 5000000 (fired_manager 0) demo_prices = (fired_manager 0, [])"
  by (simp add: demo_defs engine_defs)

lemma demo_third:
  "check_alerts 11000000 (fired_manager 0) demo_prices =
     ((fired_manager 11000000)\<lparr>am_events := [event_aapl 0, event_aapl 11000000]\<rparr>,
      [event_aapl 11000000])"
  by (simp add: demo_defs engine_defs)

lemma demo_session_run:
  "run init_manager demo_session =
     ((fired_manager 11000000)\<lparr>am_events := [event_aapl 0, event_aapl 11000000]\<rparr>,
      [RuleAdded rule_aapl, RuleAdded rule_tsla, RuleAdded rule_nvda,
       EventsFired [event_aapl 0], EventsFired [], EventsFired [event_aapl 11000000]])"
  by (simp add: demo_session_def run_append demo_run demo_check_alerts demo_second demo_third)

lemma demo_fire_times:
  "fire_times 1 (fired_events (snd (run init_manager demo_session))) = [0, 11000000]"
  by (simp add: demo_session_run fire_times_def rule_events_def event_aapl_def)

text \<open>The session of 17 evaluations: every rule fires in every evaluation.\<close>

lemma startup_run: "am_rules (fst (run init_manager startup_commands)) = startup_rules None"
  by (simp add: startup_commands_def startup_rules_def init_manager_def add_rule_def upper_def
      upper_char_def Let_def)

lemma cycle_step:
  assumes "am_rules m = startup_rules fired_at"
    and "case fired_at of None \<Rightarrow> True | Some t \<Rightarrow> now - t \<ge> 10000000"
  shows "am_rules (fst (check_alerts now m demo_prices)) = startup_rules (Some now)"
    and "snd (check_alerts now m demo_prices) = cycle_events now"
proof -
  have can: "can_trigger (r\<lparr>ar_cooldown_seconds := 10, ar_last_triggered := fired_at\<rparr>) now" for r
    using assms(2) by (simp add: can_trigger_def split: option.splits)
  have rule: "check_rule now (price_by_symbol demo_prices)
      \<lparr>ar_id = i, ar_symbol = s, ar_operator = ''>'', ar_threshold = 0, ar_description = d,
       ar_enabled = True, ar_cooldown_seconds = 10, ar_last_triggered = fired_at\<rparr> =
      (\<lparr>ar_id = i, ar_symbol = s, ar_operator = ''>'', ar_threshold = 0, ar_description = d,
        ar_enabled = True, ar_cooldown_seconds = 10, ar_last_triggered = Some now\<rparr>,
       Some (cycle_event i s p now))"
    if "price_by_symbol demo_prices (upper s) = Some q" and "sp_price q = p" and "0 < p"
    for i s d p q
    using that can[of "\<lparr>ar_id = i, ar_symbol = s, ar_operator = ''>'', ar_threshold = 0,
      ar_description = d, ar_enabled = True, ar_cooldown_seconds = 10,
      ar_last_triggered = fired_at\<rparr>"]
    by (simp add: check_rule_def condition_met_def cycle_event_def Let_def)
  have aapl: "price_by_symbol demo_prices (upper ''AAPL'') = Some (demo_prices ! 0)"
    and tsla: "price_by_symbol demo_prices (upper ''TSLA'') = Some (demo_prices ! 1)"
    and nvda: "price_by_symbol demo_prices (upper ''NVDA'') = Some (demo_prices ! 2)"
    by (simp_all add: price_by_symbol_def demo_prices_def upper_def upper_char_def)
  have p: "sp_price (demo_prices ! 0) = 150" "sp_price (demo_prices ! 1) = 250"
    "sp_price (demo_prices ! 2) = 900"
    by (simp_all add: demo_prices_def)
  note r1 = rule[OF aapl p(1), of 1 "''DEMO: AAPL > 0''"]
  note r2 = rule[OF tsla p(2), of 2 "''DEMO: TSLA > 0''"]
  note r3 = rule[OF nvda p(3), of 3 "''DEMO: NVDA > 0''"]
  show "am_rules (fst (check_alerts now m demo_prices)) = startup_rules (Some now)"
    using r1 r2 r3 by (simp add: check_alerts_rules assms(1) startup_rules_def)
  show "snd (check_alerts now m demo_prices) = cycle_events now"
    using r1 r2 r3
    by (simp add: check_alerts_fired assms(1) startup_rules_def cycle_events_def)
qed

lemma run_cycles:
  assumes "am_rules m = startup_rules fired_at"
    and "case fired_at of None \<Rightarrow> True | Some t \<Rightarrow> int n * 10000000 - t \<ge> 10000000"
  shows "fired_events (snd (run m (map cycle [n..<n + k]))) =
           concat (map (\<lambda>i. cycle_events (int i * 10000000)) [n..<n + k])"
  using assms
proof (induction k arbitrary: m fired_at n)
  case 0
  then show ?case by simp
next
  case (Suc k)
  let ?now = "int n * 10000000"
  let ?m1 = "fst (check_alerts ?now m demo_prices)"
  have upt: "[n..<n + Suc k] = n # [Suc n..<Suc n + k]"
    by (simp add: upt_conv_Cons)
  have rules1: "am_rules ?m1 = startup_rules (Some ?now)"
    and fired1: "snd (check_alerts ?now m demo_prices) = cycle_events ?now"
    using cycle_step[OF Suc.prems] by simp_all
  have next_ok: "case Some ?now of None \<Rightarrow> True
      | Some t \<Rightarrow> int (Suc n) * 10000000 - t \<ge> 10000000"
    by simp
  from Suc.IH[OF rules1 next_ok] show ?case
    unfolding upt by (simp add: cycle_def case_prod_unfold Let_def fired1)
qed

lemma long_session_fired: "fired_events (snd (run init_manager long_session)) = long_fired"
proof -
  have none: "fired_events (snd (run init_manager startup_commands)) = []"
    by (simp add: startup_commands_def case_prod_unfold Let_def)
  have append: "fired_events (xs @ ys) = fired_events xs @ fired_events ys" for xs ys
    by (induction xs rule: fired_events.induct) simp_all
  have "fired_events (snd (run (fst (run init_manager startup_commands)) (map cycle [0..<0 + 17]))) =
      concat (map (\<lambda>i. cycle_events (int i * 10000000)) [0..<0 + 17])"
    by (rule run_cycles[OF startup_run]) simp
  then show ?thesis
    by (simp add: long_session_def long_fired_def run_append append none)
qed

lemma long_fired_length: "length long_fired = 51"
  by (simp add: long_fired_def cycle_events_def length_concat comp_def sum_list_triv)

lemma long_fired_oldest: "long_fired = cycle_event 1 ''AAPL'' 150 0 # drop 1 long_fired"
  by (simp add: long_fired_def cycle_events_def upt_conv_Cons)








section \<open>The alert engine: claims\<close>

text \<open>
  C6. A rule whose operator is none of \<open>>\<close>, \<open><\<close>, \<open>>=\<close>, \<open><=\<close>, \<open>==\<close> has its condition met
  at no price; \<open>check_alerts\<close> returns normally, with no event for the rule, and leaves
  the rule as it was.
\<close>

theorem unknown_operator_never_fires:
  assumes "ar_operator r \<notin> {''>'', ''<'', ''>='', ''<='', ''==''}"
    and "rules_ok m" and "(k, r) \<in> set (am_rules m)"
    and "check_alerts now m prices = (m', events)"
  shows "(\<forall>price. \<not> condition_met r price) \<and>
         rule_events (ar_id r) events = [] \<and>
         map_of (am_rules m') k = Some r"
proof -
  have nc: "\<not> condition_met r price" for price
    using assms(1) by (simp add: condition_met_def)
  then have nf: "\<not> fires now (price_by_symbol prices) r"
    by (simp add: fires_iff)
  have ev: "events = snd (check_alerts now m prices)"
    and m': "m' = fst (check_alerts now m prices)"
    using assms(4) by simp_all
  have "rule_events (ar_id r) events = []"
    using rule_events_check_alerts[OF assms(2,3)] nf by (simp add: ev fires_def)
  moreover have "map_of (am_rules m') k = Some r"
    using stored_rule_check_alerts[OF assms(2,3)] check_rule_not_fires[OF nf] by (simp add: m')
  ultimately show ?thesis using nc by blast
qed

theorem unknown_operator_never_fires_witness:
  "ar_operator rule_tsla = ''!='' \<and>
   check_alerts 0 demo_manager demo_prices = (fired_manager 0, [event_aapl 0]) \<and>
   \<not> condition_met rule_tsla 250 \<and>
   rule_events 2 [event_aapl 0] = [] \<and>
   map_of (am_rules (fired_manager 0)) 2 = Some rule_tsla"
proof -
  have op: "ar_operator rule_tsla \<notin> {''>'', ''<'', ''>='', ''<='', ''==''}"
    by (simp add: rule_tsla_def)
  have stored: "(2, rule_tsla) \<in> set (am_rules demo_manager)"
    by (simp add: demo_manager_def)
  have id: "ar_id rule_tsla = 2" and op': "ar_operator rule_tsla = ''!=''"
    by (simp_all add: rule_tsla_def)
  show ?thesis
    using unknown_operator_never_fires[OF op demo_rules_ok stored demo_check_alerts]
    by (simp add: id op' demo_check_alerts)
qed

text \<open>
  C5. A disabled rule yields no event in any call of \<open>check_alerts\<close>, whatever the
  prices, and is stored unchanged afterwards (its \<open>last_triggered\<close> included).
\<close>

theorem disabled_rule_never_fires:
  assumes "\<not> ar_enabled r"
    and "rules_ok m" and "(k, r) \<in> set (am_rules m)"
    and "check_alerts now m prices = (m', events)"
  shows "rule_events (ar_id r) events = [] \<and> map_of (am_rules m') k = Some r"
proof -
  have nf: "\<not> fires now (price_by_symbol prices) r"
    using assms(1) by (simp add: fires_iff)
  have ev: "events = snd (check_alerts now m prices)"
    and m': "m' = fst (check_alerts now m prices)"
    using assms(4) by simp_all
  have "rule_events (ar_id r) events = []"
    using rule_events_check_alerts[OF assms(2,3)] nf by (simp add: ev fires_def)
  moreover have "map_of (am_rules m') k = Some r"
    using stored_rule_check_alerts[OF assms(2,3)] check_rule_not_fires[OF nf] by (simp add: m')
  ultimately show ?thesis by blast
qed

theorem disabled_rule_never_fires_witness:
  "\<not> ar_enabled rule_nvda \<and>
   price_by_symbol demo_prices ''NVDA'' = Some (demo_prices ! 2) \<and>
   condition_met rule_nvda (sp_price (demo_prices ! 2)) \<and>
   check_alerts 0 demo_manager demo_prices = (fired_manager 0, [event_aapl 0]) \<and>
   rule_events 3 [event_aapl 0] = [] \<and>
   map_of (am_rules (fired_manager 0)) 3 = Some rule_nvda"
proof -
  have off: "\<not> ar_enabled rule_nvda"
    by (simp add: rule_nvda_def)
  have stored: "(3, rule_nvda) \<in> set (am_rules demo_manager)"
    by (simp add: demo_manager_def)
  have id: "ar_id rule_nvda = 3"
    by (simp add: rule_nvda_def)
  have price: "price_by_symbol demo_prices ''NVDA'' = Some (demo_prices ! 2)"
    by (simp add: demo_prices_def price_by_symbol_def upper_def upper_char_def)
  have met: "condition_met rule_nvda (sp_price (demo_prices ! 2))"
    by (simp add: demo_prices_def rule_nvda_def condition_met_def)
  show ?thesis
    using disabled_rule_never_fires[OF off demo_rules_ok stored demo_check_alerts]
    by (simp add: id off price met demo_check_alerts)
qed

text \<open>
  C1. The cooldown check passes when \<open>last_triggered\<close> is unset; when it is set, it
  passes exactly when \<open>now - last_triggered\<close> is at least the rule's cooldown. A call
  inside the cooldown window yields no event for the rule and leaves it unchanged. A
  rule that fires passed the check and has \<open>last_triggered = now\<close> afterwards, so the
  next call at any time \<open>now'\<close> with \<open>now' - now\<close> below the cooldown yields no event
  for it, whatever the prices and whatever the other rules do. Over any sequence of
  calls on a fresh manager, each fire of a rule is at least its cooldown after the
  fire of the same rule before it.
\<close>

theorem cooldown_between_fires:
  assumes "rules_ok m" and "(k, r) \<in> set (am_rules m)"
    and "check_alerts now m prices = (m', events)"
  shows "(ar_last_triggered r = None \<longrightarrow> can_trigger r now) \<and>
         (\<forall>t. ar_last_triggered r = Some t \<longrightarrow>
            (can_trigger r now \<longleftrightarrow> now - t \<ge> ar_cooldown_seconds r * 1000000)) \<and>
         (\<forall>t. ar_last_triggered r = Some t \<and> now - t < ar_cooldown_seconds r * 1000000 \<longrightarrow>
            rule_events (ar_id r) events = [] \<and> map_of (am_rules m') k = Some r) \<and>
         (rule_events (ar_id r) events \<noteq> [] \<longrightarrow>
            can_trigger r now \<and>
            map_of (am_rules m') k = Some (r\<lparr>ar_last_triggered := Some now\<rparr>) \<and>
            (\<forall>now' prices'. now' - now < ar_cooldown_seconds r * 1000000 \<longrightarrow>
               rule_events (ar_id r) (snd (check_alerts now' m' prices')) = [] \<and>
               map_of (am_rules (fst (check_alerts now' m' prices'))) k =
                 Some (r\<lparr>ar_last_triggered := Some now\<rparr>))) \<and>
         (\<forall>cmds i rule. (i, rule) \<in> set (am_rules (fst (run init_manager cmds))) \<longrightarrow>
            spaced (ar_cooldown_seconds rule)
              (fire_times i (fired_events (snd (run init_manager cmds)))))"
proof -
  let ?pbs = "price_by_symbol prices"
  have ev: "events = snd (check_alerts now m prices)"
    and m': "m' = fst (check_alerts now m prices)"
    using assms(3) by simp_all
  have own: "rule_events (ar_id r) events =
      (case snd (check_rule now ?pbs r) of None \<Rightarrow> [] | Some e \<Rightarrow> [e])"
    using rule_events_check_alerts[OF assms(1,2)] by (simp add: ev)
  have stored: "map_of (am_rules m') k = Some (fst (check_rule now ?pbs r))"
    using stored_rule_check_alerts[OF assms(1,2)] by (simp add: m')
  have unset: "ar_last_triggered r = None \<longrightarrow> can_trigger r now"
    by (simp add: can_trigger_def)
  have set: "can_trigger r now \<longleftrightarrow> now - t \<ge> ar_cooldown_seconds r * 1000000"
    if "ar_last_triggered r = Some t" for t
    using that by (simp add: can_trigger_def)
  have early: "rule_events (ar_id r) events = [] \<and> map_of (am_rules m') k = Some r"
    if "ar_last_triggered r = Some t \<and> now - t < ar_cooldown_seconds r * 1000000" for t
  proof -
    from that have "\<not> can_trigger r now" by (simp add: can_trigger_def)
    then have nf: "\<not> fires now ?pbs r" by (simp add: fires_iff)
    with own stored check_rule_not_fires[OF nf] show ?thesis by (simp add: fires_def)
  qed
  have fired: "can_trigger r now \<and>
      map_of (am_rules m') k = Some (r\<lparr>ar_last_triggered := Some now\<rparr>) \<and>
      (\<forall>now' prices'. now' - now < ar_cooldown_seconds r * 1000000 \<longrightarrow>
         rule_events (ar_id r) (snd (check_alerts now' m' prices')) = [] \<and>
         map_of (am_rules (fst (check_alerts now' m' prices'))) k =
           Some (r\<lparr>ar_last_triggered := Some now\<rparr>))"
    if ne: "rule_events (ar_id r) events \<noteq> []"
  proof -
    let ?r' = "r\<lparr>ar_last_triggered := Some now\<rparr>"
    from ne own have f: "fires now ?pbs r"
      by (auto simp: fires_def split: option.splits)
    then have ct: "can_trigger r now" by (simp add: fires_iff)
    from f stored have st: "map_of (am_rules m') k = Some ?r'"
      by (simp add: check_rule_fst)
    have ok': "rules_ok m'" using assms(1) by (simp add: m' check_alerts_rules_ok)
    have in': "(k, ?r') \<in> set (am_rules m')" using st by (rule map_of_SomeD)
    have again: "rule_events (ar_id r) (snd (check_alerts now' m' prices')) = [] \<and>
        map_of (am_rules (fst (check_alerts now' m' prices'))) k = Some ?r'"
      if w: "now' - now < ar_cooldown_seconds r * 1000000" for now' prices'
    proof -
      from w have "\<not> can_trigger ?r' now'" by (simp add: can_trigger_def)
      then have nf: "\<not> fires now' (price_by_symbol prices') ?r'" by (simp add: fires_iff)
      show ?thesis
        using rule_events_check_alerts[OF ok' in', of now' prices']
          stored_rule_check_alerts[OF ok' in', of now' prices'] check_rule_not_fires[OF nf] nf
        by (simp add: fires_def)
    qed
    from ct st again show ?thesis by blast
  qed
  have session: "\<forall>cmds i rule. (i, rule) \<in> set (am_rules (fst (run init_manager cmds))) \<longrightarrow>
      spaced (ar_cooldown_seconds rule)
        (fire_times i (fired_events (snd (run init_manager cmds))))"
    using fires_spaced_by_cooldown by blast
  from unset set early fired have call:
    "(ar_last_triggered r = None \<longrightarrow> can_trigger r now) \<and>
     (\<forall>t. ar_last_triggered r = Some t \<longrightarrow>
        (can_trigger r now \<longleftrightarrow> now - t \<ge> ar_cooldown_seconds r * 1000000)) \<and>
     (\<forall>t. ar_last_triggered r = Some t \<and> now - t < ar_cooldown_seconds r * 1000000 \<longrightarrow>
        rule_events (ar_id r) events = [] \<and> map_of (am_rules m') k = Some r) \<and>
     (rule_events (ar_id r) events \<noteq> [] \<longrightarrow>
        can_trigger r now \<and>
        map_of (am_rules m') k = Some (r\<lparr>ar_last_triggered := Some now\<rparr>) \<and>
        (\<forall>now' prices'. now' - now < ar_cooldown_seconds r * 1000000 \<longrightarrow>
           rule_events (ar_id r) (snd (check_alerts now' m' prices')) = [] \<and>
           map_of (am_rules (fst (check_alerts now' m' prices'))) k =
             Some (r\<lparr>ar_last_triggered := Some now\<rparr>)))"
    by blast
  from call session show ?thesis by simp
qed

theorem cooldown_between_fires_witness:
  "check_alerts 0 demo_manager demo_prices = (fired_manager 0, [event_aapl 0]) \<and>
   ar_last_triggered rule_aapl = None \<and> can_trigger rule_aapl 0 \<and>
   rule_events 1 [event_aapl 0] = [event_aapl 0] \<and>
   map_of (am_rules (fired_manager 0)) 1 = Some (rule_aapl\<lparr>ar_last_triggered := Some 0\<rparr>) \<and>
   (5000000::int) - 0 < ar_cooldown_seconds rule_aapl * 1000000 \<and>
   rule_events 1 (snd (check_alerts 5000000 (fired_manager 0) demo_prices)) = [] \<and>
   check_alerts 5000000 (fired_manager 0) demo_prices = (fired_manager 0, []) \<and>
   check_alerts 11000000 (fired_manager 0) demo_prices =
     ((fired_manager 11000000)\<lparr>am_events := [event_aapl 0, event_aapl 11000000]\<rparr>,
      [event_aapl 11000000]) \<and>
   fire_times 1 (fired_events (snd (run init_manager demo_session))) = [0, 11000000] \<and>
   spaced 10 [0, 11000000]"
proof -
  have stored: "(1, rule_aapl) \<in> set (am_rules demo_manager)"
    by (simp add: demo_manager_def)
  have id: "ar_id rule_aapl = 1" and cd: "ar_cooldown_seconds rule_aapl = 10"
    and lt: "ar_last_triggered rule_aapl = None"
    by (simp_all add: rule_aapl_def)
  have ev: "rule_events 1 [event_aapl 0] = [event_aapl 0]"
    by (simp add: rule_events_def event_aapl_def)
  have none: "rule_events 1 [] = []"
    by (simp add: rule_events_def)
  note cooldown = cooldown_between_fires[OF demo_rules_ok stored demo_check_alerts]
  have call: "can_trigger rule_aapl 0 \<and>
      map_of (am_rules (fired_manager 0)) 1 = Some (rule_aapl\<lparr>ar_last_triggered := Some 0\<rparr>) \<and>
      rule_events 1 (snd (check_alerts 5000000 (fired_manager 0) demo_prices)) = []"
    using cooldown by (simp add: id cd lt ev)
  have last: "(1, rule_aapl\<lparr>ar_last_triggered := Some 11000000\<rparr>)
      \<in> set (am_rules (fst (run init_manager demo_session)))"
    by (simp add: demo_session_run fired_manager_def)
  have "spaced (ar_cooldown_seconds (rule_aapl\<lparr>ar_last_triggered := Some 11000000\<rparr>))
      (fire_times 1 (fired_events (snd (run init_manager demo_session))))"
    using cooldown last by blast
  then have session: "spaced 10 [0, 11000000]"
    by (simp add: demo_fire_times cd)
  have window: "(5000000::int) - 0 < ar_cooldown_seconds rule_aapl * 1000000"
    by (simp add: cd)
  from demo_check_alerts lt call ev window demo_second demo_third demo_fire_times session
  show ?thesis by simp
qed

text \<open>
  C10. One call of \<open>check_alerts\<close> leaves \<open>_next_id\<close> alone; it keeps every key of the
  dictionary in place; the rule under a key is the old one, with \<open>last_triggered = now\<close>
  if it fired in this call and untouched otherwise, so every field other than
  \<open>last_triggered\<close> is as before; the returned events are those of the firing rules, in
  rule order; the history is the old one followed by the returned events, cut to its
  last 50; and with no rule registered the call returns no event and the same manager.
\<close>

theorem check_alerts_frame:
  assumes "check_alerts now m prices = (m', events)"
  shows "am_next_id m' = am_next_id m \<and>
         am_rules m' =
           map (\<lambda>(k, r). (k, if fires now (price_by_symbol prices) r
                               then r\<lparr>ar_last_triggered := Some now\<rparr> else r)) (am_rules m) \<and>
         map fst (am_rules m') = map fst (am_rules m) \<and>
         map (\<lambda>(k, r). r\<lparr>ar_last_triggered := None\<rparr>) (am_rules m') =
           map (\<lambda>(k, r). r\<lparr>ar_last_triggered := None\<rparr>) (am_rules m) \<and>
         map ae_rule_id events =
           map ar_id (filter (fires now (price_by_symbol prices)) (map snd (am_rules m))) \<and>
         am_events m' =
           (if am_rules m = [] then am_events m
            else if length (am_events m @ events) > 50 then last_n 50 (am_events m @ events)
            else am_events m @ events) \<and>
         (am_rules m = [] \<longrightarrow> m' = m \<and> events = [])"
proof -
  let ?pbs = "price_by_symbol prices"
  have ev: "events = snd (check_alerts now m prices)"
    and m': "m' = fst (check_alerts now m prices)"
    using assms by simp_all
  have rules: "am_rules m' =
      map (\<lambda>(k, r). (k, if fires now ?pbs r then r\<lparr>ar_last_triggered := Some now\<rparr> else r))
        (am_rules m)"
    by (simp add: m' check_alerts_rules check_rule_fst)
  have keys: "map fst (am_rules m') = map fst (am_rules m)"
    by (simp add: m' check_alerts_keys)
  have rest: "map (\<lambda>(k, r). r\<lparr>ar_last_triggered := None\<rparr>) (am_rules m') =
      map (\<lambda>(k, r). r\<lparr>ar_last_triggered := None\<rparr>) (am_rules m)"
    unfolding rules map_map by (rule map_cong) (auto simp: case_prod_unfold)
  have ids: "map ae_rule_id (List.map_filter (\<lambda>(k, r). snd (check_rule now ?pbs r)) rs) =
      map ar_id (filter (fires now ?pbs) (map snd rs))" for rs
    by (induction rs)
      (auto simp: List.map_filter_simps fires_def dest: check_rule_event split: option.splits)
  have fired: "map ae_rule_id events = map ar_id (filter (fires now ?pbs) (map snd (am_rules m)))"
    by (simp add: ev check_alerts_fired ids)
  have hist: "am_events m' =
      (if am_rules m = [] then am_events m
       else if length (am_events m @ events) > 50 then last_n 50 (am_events m @ events)
       else am_events m @ events)"
    using check_alerts_history[of now m prices] by (simp add: m' ev Let_def)
  have none: "am_rules m = [] \<longrightarrow> m' = m \<and> events = []"
    using assms by (auto simp: check_alerts_def)
  have nid: "am_next_id m' = am_next_id m"
    by (simp add: m' check_alerts_next_id)
  show ?thesis
    using nid rules keys rest fired hist none by (intro conjI)
qed

theorem check_alerts_frame_witness:
  "check_alerts 0 demo_manager demo_prices = (fired_manager 0, [event_aapl 0]) \<and>
   am_next_id (fired_manager 0) = am_next_id demo_manager \<and>
   map fst (am_rules (fired_manager 0)) = map fst (am_rules demo_manager) \<and>
   map (\<lambda>(k, r). r\<lparr>ar_last_triggered := None\<rparr>) (am_rules (fired_manager 0)) =
     map (\<lambda>(k, r). r\<lparr>ar_last_triggered := None\<rparr>) (am_rules demo_manager) \<and>
   am_events (fired_manager 0) = am_events demo_manager @ [event_aapl 0] \<and>
   check_alerts 0 init_manager demo_prices = (init_manager, [])"
proof -
  have empty: "check_alerts 0 init_manager demo_prices = (init_manager, [])"
    by (simp add: check_alerts_def init_manager_def)
  note frame = check_alerts_frame[OF demo_check_alerts]
  have nid: "am_next_id (fired_manager 0) = am_next_id demo_manager"
    using frame by (rule conjunct1)
  have keys: "map fst (am_rules (fired_manager 0)) = map fst (am_rules demo_manager)"
    using frame by blast
  have rest: "map (\<lambda>(k, r). r\<lparr>ar_last_triggered := None\<rparr>) (am_rules (fired_manager 0)) =
     map (\<lambda>(k, r). r\<lparr>ar_last_triggered := None\<rparr>) (am_rules demo_manager)"
    using frame by blast
  have hist: "am_events (fired_manager 0) = am_events demo_manager @ [event_aapl 0]"
    by (simp add: demo_defs)
  show ?thesis
    using demo_check_alerts nid keys rest hist empty by (intro conjI)
qed

text \<open>
  C2. After any sequence of calls on a fresh manager, the history is the list of all
  events the calls fired, in firing order, without its first \<open>n - 50\<close> events when \<open>n\<close>
  events were fired: the newest events are kept, the oldest are evicted first. Its
  length is the smaller of 50 and \<open>n\<close>, and \<open>recent_events\<close> returns it oldest first.
\<close>

theorem history_bounded_fifo:
  "recent_events (fst (run init_manager cmds)) =
     drop (length (fired_events (snd (run init_manager cmds))) - 50)
       (fired_events (snd (run init_manager cmds))) \<and>
   (\<exists>evicted. fired_events (snd (run init_manager cmds)) =
      evicted @ recent_events (fst (run init_manager cmds))) \<and>
   length (recent_events (fst (run init_manager cmds))) =
     min 50 (length (fired_events (snd (run init_manager cmds)))) \<and>
   length (recent_events (fst (run init_manager cmds))) \<le> 50"
proof -
  let ?fired = "fired_events (snd (run init_manager cmds))"
  have "am_events init_manager = last_n 50 []"
    by (simp add: init_manager_def last_n_def)
  from run_history[OF this, of cmds]
  have kept: "recent_events (fst (run init_manager cmds)) = drop (length ?fired - 50) ?fired"
    by (simp add: recent_events_def last_n_def)
  have "?fired = take (length ?fired - 50) ?fired @ recent_events (fst (run init_manager cmds))"
    unfolding kept by simp
  then have suffix: "\<exists>evicted. ?fired = evicted @ recent_events (fst (run init_manager cmds))"
    by blast
  have len: "length (recent_events (fst (run init_manager cmds))) = min 50 (length ?fired)"
    unfolding kept by simp
  from kept suffix len show ?thesis by simp
qed

theorem history_bounded_fifo_witness:
  "fired_events (snd (run init_manager long_session)) = long_fired \<and>
   length long_fired = 51 \<and>
   long_fired = cycle_event 1 ''AAPL'' 150 0 # drop 1 long_fired \<and>
   recent_events (fst (run init_manager long_session)) = drop 1 long_fired \<and>
   length (recent_events (fst (run init_manager long_session))) = 50"
proof -
  from history_bounded_fifo[of long_session]
  have kept: "recent_events (fst (run init_manager long_session)) = drop 1 long_fired"
    by (simp add: long_session_fired long_fired_length)
  from long_session_fired long_fired_length long_fired_oldest kept show ?thesis
    by (simp add: long_fired_length)
qed




section \<open>The subscriber registry: lemmas and claims\<close>

lemma count_list_remove1:
  "count_list (remove1 c xs) d =
     (if d = c \<and> c \<in> set xs then count_list xs d - 1 else count_list xs d)"
  by (induction xs) auto

lemma filter_remove1_dropped: "\<not> P c \<Longrightarrow> filter P (remove1 c xs) = filter P xs"
  by (induction xs) auto

lemma broadcast_loop_attempts:
  "snd (broadcast_loop send_text message snapshot cm) =
     map (\<lambda>c. (c, send_text c message)) snapshot"
  by (induction snapshot arbitrary: cm)
    (simp_all add: case_prod_unfold Let_def split: send_result.splits)

lemma broadcast_loop_active:
  assumes "\<And>c. send_text c message = SendError \<Longrightarrow>
             count_list (cm_active_connections cm) c = count_list snapshot c"
  shows "cm_active_connections (fst (broadcast_loop send_text message snapshot cm)) =
           filter (\<lambda>c. send_text c message = Sent) (cm_active_connections cm)"
  using assms
proof (induction snapshot arbitrary: cm)
  case Nil
  have "send_text c message = Sent" if "c \<in> set (cm_active_connections cm)" for c
  proof (cases "send_text c message")
    case Sent
    then show ?thesis .
  next
    case SendError
    from Nil[OF this] that show ?thesis by (simp add: count_list_0_iff)
  qed
  then show ?case by simp
next
  case (Cons c rest)
  show ?case
  proof (cases "send_text c message")
    case Sent
    have "count_list (cm_active_connections cm) d = count_list rest d"
      if "send_text d message = SendError" for d
      using Cons.prems[OF that] that Sent by auto
    from Cons.IH[OF this] Sent show ?thesis
      by (simp add: case_prod_unfold Let_def)
  next
    case SendError
    let ?cm1 = "disconnect cm c"
    have "count_list (cm_active_connections cm) c = Suc (count_list rest c)"
      using Cons.prems[OF SendError] by simp
    then have present: "c \<in> set (cm_active_connections cm)"
      by (metis count_list_0_iff nat.distinct(1))
    then have act1: "cm_active_connections ?cm1 = remove1 c (cm_active_connections cm)"
      by (simp add: disconnect_def)
    have "count_list (cm_active_connections ?cm1) d = count_list rest d"
      if "send_text d message = SendError" for d
      using Cons.prems[OF that] present by (simp add: act1 count_list_remove1)
    from Cons.IH[OF this] SendError show ?thesis
      by (simp add: case_prod_unfold Let_def act1 filter_remove1_dropped)
  qed
qed

text \<open>
  C4. \<open>broadcast\<close> attempts one delivery to every connection registered when the call
  starts, in order, whatever the earlier attempts did. Afterwards the registry holds
  exactly the connections whose send returned, in their old order: a connection whose
  send raised is gone, and one whose send returned was sent the message and is still
  registered.
\<close>

theorem broadcast_prunes_failed:
  assumes "broadcast send_text cm message = (cm', attempts)"
  shows "attempts = map (\<lambda>c. (c, send_text c message)) (cm_active_connections cm) \<and>
         cm_active_connections cm' =
           filter (\<lambda>c. send_text c message = Sent) (cm_active_connections cm) \<and>
         (\<forall>c \<in> set (cm_active_connections cm).
            (send_text c message = SendError \<longrightarrow> c \<notin> set (cm_active_connections cm')) \<and>
            (send_text c message = Sent \<longrightarrow>
               (c, Sent) \<in> set attempts \<and> c \<in> set (cm_active_connections cm')))"
proof -
  have att: "attempts = map (\<lambda>c. (c, send_text c message)) (cm_active_connections cm)"
    using assms broadcast_loop_attempts[of send_text message "cm_active_connections cm" cm]
    by (simp add: broadcast_def)
  have act: "cm_active_connections cm' =
      filter (\<lambda>c. send_text c message = Sent) (cm_active_connections cm)"
    using assms broadcast_loop_active[of send_text message cm "cm_active_connections cm"]
    by (simp add: broadcast_def)
  have each: "(send_text c message = SendError \<longrightarrow> c \<notin> set (cm_active_connections cm')) \<and>
      (send_text c message = Sent \<longrightarrow>
         (c, Sent) \<in> set attempts \<and> c \<in> set (cm_active_connections cm'))"
    if "c \<in> set (cm_active_connections cm)" for c
    using that unfolding att act by force
  from att act each show ?thesis by blast
qed

theorem broadcast_prunes_failed_witness:
  "broadcast second_fails three_subscribers ''tick'' =
     (\<lparr>cm_active_connections = [1, 3]\<rparr>, [(1, Sent), (2, SendError), (3, Sent)]) \<and>
   second_fails 2 ''tick'' = SendError \<and> 2 \<notin> set [1, 3::nat] \<and>
   second_fails 1 ''tick'' = Sent \<and> second_fails 3 ''tick'' = Sent \<and>
   cm_active_connections \<lparr>cm_active_connections = [1, 3]\<rparr> =
     filter (\<lambda>c. second_fails c ''tick'' = Sent) (cm_active_connections three_subscribers)"
proof -
  have run: "broadcast second_fails three_subscribers ''tick'' =
     (\<lparr>cm_active_connections = [1, 3]\<rparr>, [(1, Sent), (2, SendError), (3, Sent)])"
    by (simp add: broadcast_def three_subscribers_def second_fails_def disconnect_def)
  note pruned = broadcast_prunes_failed[OF run]
  have act: "cm_active_connections \<lparr>cm_active_connections = [1, 3]\<rparr> =
     filter (\<lambda>c. second_fails c ''tick'' = Sent) (cm_active_connections three_subscribers)"
    using pruned by blast
  have "second_fails 2 ''tick'' = SendError" "2 \<notin> set [1, 3::nat]"
    "second_fails 1 ''tick'' = Sent" "second_fails 3 ''tick'' = Sent"
    by (simp_all add: second_fails_def)
  with run act show ?thesis by (intro conjI)
qed

section \<open>The price cache: lemmas and claims\<close>

lemma raw_distinct:
  "raw_new \<noteq> raw_old" "raw_old \<noteq> raw_new" "raw_nan \<noteq> raw_new" "raw_nan \<noteq> raw_old"
  "raw_text_ts \<noteq> raw_new" "raw_text_ts \<noteq> raw_old" "raw_text_ts \<noteq> raw_nan"
  by (simp_all add: raw_new_def raw_old_def raw_nan_def raw_text_ts_def)

lemma demo_validate_encode:
  "demo_validate [(''symbol'', JString s), (''price'', JFloat (Finite p)),
      (''change'', JFloat (Finite c)), (''percentChange'', JFloat (Finite pc)),
      (''ts'', JString ''1970-01-01T00:00:00Z'')] =
   Some \<lparr>sp_symbol = s, sp_price = p, sp_change = c, sp_percentChange = pc, sp_ts = 0\<rparr>"
  by (simp add: demo_validate_def)

lemma demo_decode:
  "new_StockPrice demo_lib (demo_encode quote_new) = Inr quote_new"
  "new_StockPrice demo_lib (demo_encode quote_old) = Inr quote_old"
  by (simp_all add: demo_lib_def demo_encode_def quote_new_def quote_old_def demo_validate_encode)

lemma load_prices_never_raises: "load_prices lib reply now cache max_age_seconds \<noteq> Inl e"
  by (simp add: load_prices_def split: option.splits sum.splits)

lemma demo_loads:
  "json_loads demo_lib raw_new = Some blob_new"
  "json_loads demo_lib raw_old = Some blob_old"
  "json_loads demo_lib raw_nan = Some blob_nan"
  "json_loads demo_lib raw_text_ts =
     Some (JObject [(''ts'', JString ''yesterday''), (''data'', JArray [])])"
  by (simp_all add: demo_lib_def raw_distinct)

lemma demo_floats:
  "float_of_str demo_lib s = None"
  "round_float demo_lib x = Finite x"
  by (simp_all add: demo_lib_def)

lemma demo_parse_new:
  "parse_cached demo_lib now max_age_seconds raw_new =
     Inr (if now - 100 > real_of_int max_age_seconds then None else Some [quote_new])"
  by (simp add: parse_cached_def demo_loads demo_floats blob_new_def demo_decode)

lemma demo_parse_old:
  "parse_cached demo_lib now max_age_seconds raw_old =
     Inr (if now - 90 > real_of_int max_age_seconds then None else Some [quote_old])"
  by (simp add: parse_cached_def demo_loads demo_floats blob_old_def demo_decode)

lemma demo_parse_nan:
  "parse_cached demo_lib now max_age_seconds raw_nan = Inr (Some [quote_old])"
  by (simp add: parse_cached_def demo_loads demo_floats blob_nan_def demo_decode)

lemma demo_parse_text_ts:
  "parse_cached demo_lib now max_age_seconds raw_text_ts = Inl ValueError"
  by (simp add: parse_cached_def demo_loads demo_floats)

lemma demo_read_redis:
  "read_raw demo_lib (Returned (Some raw)) redis_cache = Some raw"
  by (simp add: read_raw_def redis_cache_def demo_lib_def)

text \<open>
  C3. The code at a payload whose \<open>ts\<close> is \<open>NaN\<close>, which \<open>json.loads\<close> accepts: \<open>float(ts)\<close>
  is NaN, the age is NaN and \<open>age > max_age_seconds\<close> is false, so \<open>load_prices\<close> returns
  the prices of the payload at every time and for every \<open>max_age_seconds\<close>. The same
  prices under a finite \<open>ts\<close> are a hit up to the age \<open>max_age_seconds\<close>, that age
  included, and a miss after it; a \<open>ts\<close> that \<open>float\<close> refuses is a miss; and no input
  makes \<open>load_prices\<close> raise.
\<close>

theorem load_prices_nan_ts_is_hit:
  "load_prices demo_lib (Returned (Some raw_nan)) now redis_cache max_age_seconds =
     Inr (Some [quote_old]) \<and>
   load_prices demo_lib (Returned (Some raw_old)) 110 redis_cache 20 = Inr (Some [quote_old]) \<and>
   load_prices demo_lib (Returned (Some raw_old)) 111 redis_cache 20 = Inr None \<and>
   load_prices demo_lib (Returned (Some raw_text_ts)) now redis_cache max_age_seconds = Inr None \<and>
   (\<forall>lib reply cache e. load_prices lib reply now cache max_age_seconds \<noteq> Inl e)"
  by (simp add: load_prices_def demo_read_redis demo_parse_nan demo_parse_old demo_parse_text_ts
      load_prices_never_raises[unfolded load_prices_def])

lemma demo_save:
  "save_prices demo_lib redis_old True 100 redis_cache [quote_new] =
     (redis_cache\<lparr>pc_memory_blob := Some raw_new\<rparr>, redis_old)"
  by (simp add: save_prices_def demo_lib_def blob_new_def redis_cache_def Let_def)

lemma demo_save_memory:
  "save_prices demo_lib Map.empty False 100 memory_cache [quote_new] =
     (memory_cache\<lparr>pc_memory_blob := Some raw_new\<rparr>, Map.empty)"
  by (simp add: save_prices_def demo_lib_def blob_new_def memory_cache_def Let_def)

text \<open>
  C7. The code where the Redis key holds the payload saved at time 90 and the write of
  \<open>save_prices\<close> at time 100 raises: the in-memory copy holds the new payload, which
  parses to the prices saved, but \<open>load_prices\<close> at time 105 reads Redis first and
  returns the prices of the older payload. With no Redis client the same two calls
  return the prices saved.
\<close>

theorem stale_redis_read_after_failed_write:
  "save_prices demo_lib redis_old True 100 redis_cache [quote_new] =
     (redis_cache\<lparr>pc_memory_blob := Some raw_new\<rparr>, redis_old) \<and>
   parse_cached demo_lib 105 20 raw_new = Inr (Some [quote_new]) \<and>
   load_prices demo_lib (redis_get redis_old False (pc_key redis_cache)) 105
     (redis_cache\<lparr>pc_memory_blob := Some raw_new\<rparr>) 20 = Inr (Some [quote_old]) \<and>
   [quote_old] \<noteq> [quote_new] \<and>
   save_prices demo_lib Map.empty False 100 memory_cache [quote_new] =
     (memory_cache\<lparr>pc_memory_blob := Some raw_new\<rparr>, Map.empty) \<and>
   load_prices demo_lib (redis_get Map.empty False (pc_key memory_cache)) 105
     (memory_cache\<lparr>pc_memory_blob := Some raw_new\<rparr>) 20 = Inr (Some [quote_new])"
proof -
  have raw: "read_raw demo_lib (redis_get redis_old False (pc_key redis_cache))
      (redis_cache\<lparr>pc_memory_blob := Some raw_new\<rparr>) = Some raw_old"
    by (simp add: read_raw_def redis_get_def redis_old_def redis_cache_def demo_lib_def)
  have stale: "load_prices demo_lib (redis_get redis_old False (pc_key redis_cache)) 105
      (redis_cache\<lparr>pc_memory_blob := Some raw_new\<rparr>) 20 = Inr (Some [quote_old])"
    by (simp add: load_prices_def raw demo_parse_old)
  have differ: "[quote_old] \<noteq> [quote_new]"
    by (simp add: quote_old_def quote_new_def)
  have new: "parse_cached demo_lib 105 20 raw_new = Inr (Some [quote_new])"
    by (simp add: demo_parse_new)
  have raw_memory: "read_raw demo_lib (redis_get Map.empty False (pc_key memory_cache))
      (memory_cache\<lparr>pc_memory_blob := Some raw_new\<rparr>) = Some raw_new"
    by (simp add: read_raw_def memory_cache_def)
  have memory: "load_prices demo_lib (redis_get Map.empty False (pc_key memory_cache)) 105
      (memory_cache\<lparr>pc_memory_blob := Some raw_new\<rparr>) 20 = Inr (Some [quote_new])"
    by (simp add: load_prices_def raw_memory demo_parse_new)
  from demo_save new stale differ demo_save_memory memory show ?thesis
    by (intro conjI)
qed

section \<open>The engine's objects in the store: lemmas and claims\<close>

lemmas heap_defs =
  demo_heap_def demo_self_def listed_heap_def recent_heap_def demo_view_def
  manager_view_def dict_at_def list_at_def rule_at_def event_at_def

lemma frame_view:
  assumes "heap_ok h self" and "hlimit h \<le> l" and "cells h' = (cells h)(l \<mapsto> obj)"
  shows "manager_view h' self = manager_view h self"
proof -
  from assms(1) obtain d es where d: "dict_at h (amo_rules self) = Some d"
    and es: "list_at h (amo_events self) = Some es"
    by (cases "dict_at h (amo_rules self)"; cases "list_at h (amo_events self)")
      (simp_all add: heap_ok_def)
  from assms(1) have dl: "list_all (\<lambda>(k, a). a < hlimit h) d"
    and el: "list_all (\<lambda>a. a < hlimit h) es"
    by (auto simp: heap_ok_def d es list_all_iff)
  from assms have ne: "amo_rules self \<noteq> l" "amo_events self \<noteq> l"
    by (auto simp: heap_ok_def)
  have d': "dict_at h' (amo_rules self) = Some d" and es': "list_at h' (amo_events self) = Some es"
    using d es ne by (simp_all add: dict_at_def list_at_def assms(3))
  have rs: "map (\<lambda>(k, a). map_option (Pair k) (rule_at h' a)) d =
      map (\<lambda>(k, a). map_option (Pair k) (rule_at h a)) d"
    using dl assms(2) by (intro map_cong) (auto simp: rule_at_def list_all_iff assms(3))
  have evs: "map (event_at h') es = map (event_at h) es"
    using el assms(2) by (intro map_cong) (auto simp: event_at_def list_all_iff assms(3))
  show ?thesis
    by (simp add: manager_view_def d d' es es' rs evs)
qed

lemma heap_ok_defined:
  assumes "heap_ok h self"
  shows "\<exists>d es rules events.
           dict_at h (amo_rules self) = Some d \<and> list_at h (amo_events self) = Some es \<and>
           those (map (\<lambda>(k, a). map_option (Pair k) (rule_at h a)) d) = Some rules \<and>
           those (map (event_at h) es) = Some events"
proof -
  have those_Some: "\<exists>ys. those (map f xs) = Some ys" if "list_all (\<lambda>x. f x \<noteq> None) xs"
    for f :: "'x \<Rightarrow> 'y option" and xs
    using that by (induction xs) auto
  from assms obtain d es where d: "dict_at h (amo_rules self) = Some d"
    and es: "list_at h (amo_events self) = Some es"
    by (cases "dict_at h (amo_rules self)"; cases "list_at h (amo_events self)")
      (simp_all add: heap_ok_def)
  from assms have "list_all (\<lambda>x. (case x of (k, a) \<Rightarrow> map_option (Pair k) (rule_at h a)) \<noteq> None) d"
    and "list_all (\<lambda>a. event_at h a \<noteq> None) es"
    by (auto simp: heap_ok_def d es list_all_iff)
  from those_Some[OF this(1)] those_Some[OF this(2)] d es show ?thesis
    by blast
qed

text \<open>
  C8. In a well-formed store, \<open>list_rules\<close> and \<open>recent_events\<close> each return a new list
  object, distinct from every object of the engine. The new list holds the addresses of
  the engine's own rules (in dictionary order) or events (the whole history, oldest
  first); reading them gives the rules and events of the manager. The call leaves the
  engine's state as it was, and so does every change of the returned list in place.
\<close>

theorem list_views_are_shallow_copies:
  assumes "heap_ok h self"
  shows "\<exists>h1 l1 h2 l2 d es m.
           dict_at h (amo_rules self) = Some d \<and> list_at h (amo_events self) = Some es \<and>
           manager_view h self = Some m \<and>
           list_rules_h h self = Some (h1, l1) \<and>
           l1 \<noteq> amo_rules self \<and> l1 \<noteq> amo_events self \<and> l1 \<notin> snd ` set d \<and> l1 \<notin> set es \<and>
           list_at h1 l1 = Some (map snd d) \<and>
           those (map (rule_at h1) (map snd d)) = Some (list_rules m) \<and>
           manager_view h1 self = Some m \<and>
           (\<forall>items. manager_view (list_assign h1 l1 items) self = Some m) \<and>
           recent_events_h h self = Some (h2, l2) \<and>
           l2 \<noteq> amo_rules self \<and> l2 \<noteq> amo_events self \<and> l2 \<notin> snd ` set d \<and> l2 \<notin> set es \<and>
           list_at h2 l2 = Some es \<and>
           those (map (event_at h2) es) = Some (recent_events m) \<and>
           manager_view h2 self = Some m \<and>
           (\<forall>items. manager_view (list_assign h2 l2 items) self = Some m)"
proof -
  from heap_ok_defined[OF assms] obtain d es rules events where
    d: "dict_at h (amo_rules self) = Some d" and es: "list_at h (amo_events self) = Some es"
    and rules: "those (map (\<lambda>(k, a). map_option (Pair k) (rule_at h a)) d) = Some rules"
    and events: "those (map (event_at h) es) = Some events"
    by blast
  let ?m = "\<lparr>am_rules = rules, am_next_id = amo_next_id self, am_events = events\<rparr>"
  have view: "manager_view h self = Some ?m"
    by (simp add: manager_view_def d es rules events)
  let ?l = "hlimit h"
  let ?h1 = "h\<lparr>cells := (cells h)(?l \<mapsto> ListObj (map snd d)), hlimit := Suc ?l\<rparr>"
  let ?h2 = "h\<lparr>cells := (cells h)(?l \<mapsto> ListObj es), hlimit := Suc ?l\<rparr>"
  have lr: "list_rules_h h self = Some (?h1, ?l)"
    using d by (auto simp: list_rules_h_def dict_at_def alloc_def split: option.splits pyobj.splits)
  have re: "recent_events_h h self = Some (?h2, ?l)"
    using es by (auto simp: recent_events_h_def list_at_def alloc_def split: option.splits pyobj.splits)
  have fresh: "?l \<noteq> amo_rules self" "?l \<noteq> amo_events self" "?l \<notin> snd ` set d" "?l \<notin> set es"
    using assms by (auto simp: heap_ok_def d es list_all_iff)
  have at1: "list_at ?h1 ?l = Some (map snd d)" and at2: "list_at ?h2 ?l = Some es"
    by (simp_all add: list_at_def)
  have view1: "manager_view ?h1 self = Some ?m"
    using frame_view[OF assms, of ?l ?h1] view by simp
  have view2: "manager_view ?h2 self = Some ?m"
    using frame_view[OF assms, of ?l ?h2] view by simp
  have mut1: "manager_view (list_assign ?h1 ?l items) self = Some ?m" for items
    using frame_view[OF assms, of ?l "list_assign ?h1 ?l items" "ListObj items"] view
    by (simp add: list_assign_def)
  have mut2: "manager_view (list_assign ?h2 ?l items) self = Some ?m" for items
    using frame_view[OF assms, of ?l "list_assign ?h2 ?l items" "ListObj items"] view
    by (simp add: list_assign_def)
  have rules_h: "those (map (rule_at h) (map snd d)) = Some (map snd rules)"
    using rules
  proof (induction d arbitrary: rules)
    case Nil
    then show ?case by simp
  next
    case (Cons x d)
    then show ?case by (cases x) (auto split: option.splits)
  qed
  have "a \<noteq> ?l" if "a \<in> set (map snd d)" for a
    using that fresh(3) by (metis set_map)
  then have same1: "map (rule_at ?h1) (map snd d) = map (rule_at h) (map snd d)"
    by (intro map_cong) (simp_all add: rule_at_def)
  have "a \<noteq> ?l" if "a \<in> set es" for a
    using that fresh(4) by auto
  then have same2: "map (event_at ?h2) es = map (event_at h) es"
    by (intro map_cong) (simp_all add: event_at_def)
  have read1: "those (map (rule_at ?h1) (map snd d)) = Some (list_rules ?m)"
    unfolding same1 using rules_h by (simp add: list_rules_def)
  have read2: "those (map (event_at ?h2) es) = Some (recent_events ?m)"
    unfolding same2 by (simp add: events recent_events_def)
  from d es view lr fresh at1 read1 view1 mut1 re at2 read2 view2 mut2 show ?thesis
    by blast
qed


theorem list_views_are_shallow_copies_witness:
  "heap_ok demo_heap demo_self \<and>
   manager_view demo_heap demo_self = Some demo_view \<and>
   list_rules_h demo_heap demo_self = Some (listed_heap, 4) \<and>
   list_at listed_heap 4 = Some [2] \<and>
   those (map (rule_at listed_heap) [2]) = Some (list_rules demo_view) \<and>
   manager_view listed_heap demo_self = Some demo_view \<and>
   manager_view (list_assign listed_heap 4 []) demo_self = Some demo_view \<and>
   recent_events_h demo_heap demo_self = Some (recent_heap, 4) \<and>
   list_at recent_heap 4 = Some [3] \<and>
   those (map (event_at recent_heap) [3]) = Some (recent_events demo_view) \<and>
   manager_view (list_assign recent_heap 4 [3, 3]) demo_self = Some demo_view"
proof -
  have ok: "heap_ok demo_heap demo_self"
    by (simp add: heap_ok_def heap_defs)
  have view: "manager_view demo_heap demo_self = Some demo_view"
    by (simp add: heap_defs)
  have lr: "list_rules_h demo_heap demo_self = Some (listed_heap, 4)"
    by (simp add: list_rules_h_def alloc_def heap_defs)
  have re: "recent_events_h demo_heap demo_self = Some (recent_heap, 4)"
    by (simp add: recent_events_h_def alloc_def heap_defs)
  have d: "dict_at demo_heap (amo_rules demo_self) = Some [(1, 2)]"
    and es: "list_at demo_heap (amo_events demo_self) = Some [3]"
    by (simp_all add: heap_defs)
  from list_views_are_shallow_copies[OF ok] obtain h1 l1 h2 l2 d' es' m where
    "dict_at demo_heap (amo_rules demo_self) = Some d'"
    "list_at demo_heap (amo_events demo_self) = Some es'"
    "manager_view demo_heap demo_self = Some m"
    "list_rules_h demo_heap demo_self = Some (h1, l1)"
    "list_at h1 l1 = Some (map snd d')"
    "those (map (rule_at h1) (map snd d')) = Some (list_rules m)"
    "manager_view h1 demo_self = Some m"
    "\<forall>items. manager_view (list_assign h1 l1 items) demo_self = Some m"
    "recent_events_h demo_heap demo_self = Some (h2, l2)"
    "list_at h2 l2 = Some es'"
    "those (map (event_at h2) es') = Some (recent_events m)"
    "\<forall>items. manager_view (list_assign h2 l2 items) demo_self = Some m"
    by blast
  then show ?thesis
    using ok by (auto simp: view lr re d es)
qed

theorem returned_items_alias_engine_counterexample:
  "list_rules_h demo_heap demo_self = Some (listed_heap, 4) \<and>
   list_at listed_heap 4 = Some [2] \<and>
   manager_view listed_heap demo_self = Some demo_view \<and>
   manager_view (rule_setattr listed_heap 2 (\<lambda>r. r\<lparr>ar_enabled := False\<rparr>)) demo_self =
     Some (demo_view\<lparr>am_rules := [(1, rule_fired\<lparr>ar_enabled := False\<rparr>)]\<rparr>) \<and>
   demo_view\<lparr>am_rules := [(1, rule_fired\<lparr>ar_enabled := False\<rparr>)]\<rparr> \<noteq> demo_view \<and>
   recent_events_h demo_heap demo_self = Some (recent_heap, 4) \<and>
   list_at recent_heap 4 = Some [3] \<and>
   manager_view (event_setattr recent_heap 3 (\<lambda>e. e\<lparr>ae_price := 0\<rparr>)) demo_self =
     Some (demo_view\<lparr>am_events := [(event_aapl 0)\<lparr>ae_price := 0\<rparr>]\<rparr>) \<and>
   demo_view\<lparr>am_events := [(event_aapl 0)\<lparr>ae_price := 0\<rparr>]\<rparr> \<noteq> demo_view"
proof -
  have lr: "list_rules_h demo_heap demo_self = Some (listed_heap, 4)"
    by (simp add: list_rules_h_def alloc_def heap_defs)
  have re: "recent_events_h demo_heap demo_self = Some (recent_heap, 4)"
    by (simp add: recent_events_h_def alloc_def heap_defs)
  have at: "list_at listed_heap 4 = Some [2]" "list_at recent_heap 4 = Some [3]"
    by (simp_all add: heap_defs)
  have view: "manager_view listed_heap demo_self = Some demo_view"
    by (simp add: heap_defs)
  have rule: "manager_view (rule_setattr listed_heap 2 (\<lambda>r. r\<lparr>ar_enabled := False\<rparr>)) demo_self =
      Some (demo_view\<lparr>am_rules := [(1, rule_fired\<lparr>ar_enabled := False\<rparr>)]\<rparr>)"
    by (simp add: rule_setattr_def heap_defs)
  have event: "manager_view (event_setattr recent_heap 3 (\<lambda>e. e\<lparr>ae_price := 0\<rparr>)) demo_self =
      Some (demo_view\<lparr>am_events := [(event_aapl 0)\<lparr>ae_price := 0\<rparr>]\<rparr>)"
    by (simp add: event_setattr_def heap_defs)
  have ne: "demo_view\<lparr>am_rules := [(1, rule_fired\<lparr>ar_enabled := False\<rparr>)]\<rparr> \<noteq> demo_view"
    "demo_view\<lparr>am_events := [(event_aapl 0)\<lparr>ae_price := 0\<rparr>]\<rparr> \<noteq> demo_view"
    by (simp_all add: demo_view_def rule_fired_def rule_aapl_def event_aapl_def)
  from lr at view rule event ne re show ?thesis
    by (intro conjI)
qed

end
